theory Spec2Isabelle
  imports Main "HOL-Library.Word"
begin

unbundle bit_operations_syntax

section \<open>The cache simulator csim.c\<close>

text \<open>
  A shallow embedding of \<^verbatim>\<open>lab/7. cache/csim.c\<close>. The global variables that
  \<^verbatim>\<open>access_data\<close> changes are the fields of one state record which every function takes
  and returns. The globals \<^verbatim>\<open>s\<close>, \<^verbatim>\<open>E\<close> and \<^verbatim>\<open>b\<close> are written by the option parser only
  and are arguments of the functions that read them. The trace file is the string of its
  characters, which \<^verbatim>\<open>fgets\<close> cuts into buffers and \<^verbatim>\<open>sscanf\<close> converts.

  Platform: LP64, so \<^verbatim>\<open>int\<close> has 32 bits and \<^verbatim>\<open>size_t\<close>, \<^verbatim>\<open>uint64_t\<close> and
  \<^verbatim>\<open>unsigned long long\<close> have 64. Unsigned arithmetic wraps around. What C leaves
  undefined (overflow of a signed counter, a shift by a negative count or by 64 and more,
  an access outside an allocated array, a number in the trace that its object cannot
  hold) is an error value of the model, as is every \<^verbatim>\<open>exit(EXIT_FAILURE)\<close>.
\<close>

subsection \<open>Types and data structures\<close>

type_synonym u64 = "64 word"

record line_t =
  valid :: int
  tag :: u64
  last_used :: u64

text \<open>A \<^verbatim>\<open>set_t\<close> is its array of lines; \<^verbatim>\<open>cache.sets\<close> is the array of sets.\<close>

record cache_t =
  cache_sets :: "line_t list list"
  cache_S :: nat
  cache_E :: int

record state =
  cache :: cache_t
  hit_count :: int
  miss_count :: int
  eviction_count :: int
  use_counter :: u64

datatype error =
    STooLarge          \<comment> \<open>exit: "Error: s is too large"\<close>
  | MallocSets         \<comment> \<open>exit: malloc of the sets array returned NULL\<close>
  | MallocLines        \<comment> \<open>exit: malloc of a lines array returned NULL\<close>
  | MissingArgs        \<comment> \<open>exit: "Missing required args"\<close>
  | FopenFailed        \<comment> \<open>exit: the trace file could not be opened\<close>
  | ShiftUndefined     \<comment> \<open>undefined: shift count negative or at least 64\<close>
  | OutOfBounds        \<comment> \<open>undefined: array access outside the allocation\<close>
  | SignedOverflow     \<comment> \<open>undefined: increment of an int equal to INT_MAX\<close>
  | ScanUndefined      \<comment> \<open>undefined: sscanf converts a number that its object cannot hold\<close>
  | ScanUnspecified    \<comment> \<open>sscanf input on which ISO C and the C libraries differ\<close>

definition INT_MAX :: int where
  "INT_MAX = 2147483647"

definition ULLONG_MAX :: u64 where
  "ULLONG_MAX = - 1"

definition sizeof_set_t :: int where
  "sizeof_set_t = 8"

text \<open>The static initialisers of the globals; \<^verbatim>\<open>cache\<close> is zero-initialised.\<close>

definition initial_globals :: state where
  "initial_globals =
     \<lparr>cache = \<lparr>cache_sets = [], cache_S = 0, cache_E = 0\<rparr>,
      hit_count = 0, miss_count = 0, eviction_count = 0, use_counter = 0\<rparr>"

subsection \<open>init_cache\<close>

definition invalid_line :: line_t where
  "invalid_line = \<lparr>valid = 0, tag = 0, last_used = 0\<rparr>"

text \<open>
  The loop over the sets (lines 96 to 108). \<open>malloc_null k\<close> tells whether the \<open>k\<close>-th call
  of \<^verbatim>\<open>malloc\<close> returns NULL (call 0 allocates the sets array, call \<open>i + 1\<close> the lines of
  set \<open>i\<close>). The inner loop writes \<open>E\<close> invalid lines.
\<close>

function init_sets :: "(nat \<Rightarrow> bool) \<Rightarrow> int \<Rightarrow> nat \<Rightarrow> nat \<Rightarrow> line_t list list
    \<Rightarrow> error + line_t list list" where
  "init_sets malloc_null E S i acc =
     (if i < S then
        (if malloc_null (Suc i) then Inl MallocLines
         else init_sets malloc_null E S (Suc i) (acc @ [replicate (nat E) invalid_line]))
      else Inr acc)"
  by pat_completeness auto
termination
  by (relation "measure (\<lambda>(m, E, S, i, acc). S - i)") auto

declare init_sets.simps [simp del]

text \<open>
  \<^verbatim>\<open>sizeof(set_t) * S\<close> is computed in \<^verbatim>\<open>size_t\<close> and wraps around: for \<open>s\<close> from 61 to 63
  the request is for 0 bytes, and the first write to \<^verbatim>\<open>cache.sets[0]\<close> is outside it.
  \<^verbatim>\<open>main\<close> calls \<^verbatim>\<open>init_cache\<close> with \<open>0 < E\<close> only, where the lines array has exactly
  \<open>E\<close> entries.
\<close>

definition init_cache :: "(nat \<Rightarrow> bool) \<Rightarrow> int \<Rightarrow> int \<Rightarrow> state \<Rightarrow> error + state" where
  "init_cache malloc_null s E st =
     (if s \<ge> 64 then Inl STooLarge
      else if s < 0 then Inl ShiftUndefined
      else
        let S = 2 ^ nat s in
        if malloc_null 0 then Inl MallocSets
        else if sizeof_set_t * int S \<ge> 2 ^ 64 then Inl OutOfBounds
        else
          (case init_sets malloc_null E S 0 [] of
             Inl e \<Rightarrow> Inl e
           | Inr ss \<Rightarrow> Inr (st\<lparr>cache := \<lparr>cache_sets = ss, cache_S = S, cache_E = E\<rparr>\<rparr>)))"

subsection \<open>access_data\<close>

text \<open>Lines 139 to 142: set index and tag of an address.\<close>

definition decompose :: "int \<Rightarrow> int \<Rightarrow> u64 \<Rightarrow> error + (u64 \<times> u64)" where
  "decompose s b addr =
     (if s > 0 \<and> s \<ge> 64 then Inl ShiftUndefined
      else if b < 0 \<or> b \<ge> 64 then Inl ShiftUndefined
      else if b + s < 0 \<or> b + s \<ge> 64 then Inl ShiftUndefined
      else
        let set_mask = (if s > 0 then push_bit (nat s) 1 - 1 else 0);
            set_index = drop_bit (nat b) addr AND set_mask;
            tg = drop_bit (nat (b + s)) addr
        in Inr (set_index, tg))"

text \<open>Lines 147 to 155: the index of the first valid line with the tag, if any.\<close>

function hit_scan :: "line_t list \<Rightarrow> int \<Rightarrow> u64 \<Rightarrow> nat \<Rightarrow> error + nat option" where
  "hit_scan lines E tg i =
     (if int i < E then
        (if i < length lines then
           (if valid (lines ! i) \<noteq> 0 \<and> tag (lines ! i) = tg then Inr (Some i)
            else hit_scan lines E tg (Suc i))
         else Inl OutOfBounds)
      else Inr None)"
  by pat_completeness auto
termination
  by (relation "measure (\<lambda>(lines, E, tg, i). nat (E - int i))") auto

declare hit_scan.simps [simp del]

text \<open>Lines 161 to 169: the index of the first invalid line, if any.\<close>

function free_scan :: "line_t list \<Rightarrow> int \<Rightarrow> nat \<Rightarrow> error + nat option" where
  "free_scan lines E i =
     (if int i < E then
        (if i < length lines then
           (if valid (lines ! i) = 0 then Inr (Some i)
            else free_scan lines E (Suc i))
         else Inl OutOfBounds)
      else Inr None)"
  by pat_completeness auto
termination
  by (relation "measure (\<lambda>(lines, E, i). nat (E - int i))") auto

declare free_scan.simps [simp del]

text \<open>Lines 175 to 180: the scan for the least recently used line.\<close>

function lru_scan :: "line_t list \<Rightarrow> int \<Rightarrow> nat \<Rightarrow> u64 \<Rightarrow> nat \<Rightarrow> error + nat" where
  "lru_scan lines E i min_used lru_index =
     (if int i < E then
        (if i < length lines then
           (if last_used (lines ! i) < min_used
            then lru_scan lines E (Suc i) (last_used (lines ! i)) i
            else lru_scan lines E (Suc i) min_used lru_index)
         else Inl OutOfBounds)
      else Inr lru_index)"
  by pat_completeness auto
termination
  by (relation "measure (\<lambda>(lines, E, i, m, l). nat (E - int i))") auto

declare lru_scan.simps [simp del]

text \<open>The write \<^verbatim>\<open>set->lines[i] = l\<close> through the pointer into \<^verbatim>\<open>cache.sets[si]\<close>.\<close>

definition put_line :: "state \<Rightarrow> nat \<Rightarrow> nat \<Rightarrow> line_t \<Rightarrow> state" where
  "put_line st si i l =
     st\<lparr>cache := (cache st)\<lparr>cache_sets :=
           (cache_sets (cache st))[si := (cache_sets (cache st) ! si)[i := l]]\<rparr>\<rparr>"

text \<open>
  The body of \<^verbatim>\<open>access_data\<close> after the decomposition, on set \<open>si\<close> with tag \<open>tg\<close>; the
  state it gets has the incremented \<^verbatim>\<open>use_counter\<close>. Returns 0 for a hit, 1 for a miss
  without eviction, 2 for a miss with eviction.
\<close>

definition access_set :: "nat \<Rightarrow> u64 \<Rightarrow> state \<Rightarrow> error + (int \<times> state)" where
  "access_set si tg st =
     (if \<not> si < length (cache_sets (cache st)) then Inl OutOfBounds
      else
        let lines = cache_sets (cache st) ! si; E = cache_E (cache st) in
        case hit_scan lines E tg 0 of
          Inl e \<Rightarrow> Inl e
        | Inr (Some i) \<Rightarrow>
            if hit_count st = INT_MAX then Inl SignedOverflow
            else Inr (0, put_line (st\<lparr>hit_count := hit_count st + 1\<rparr>) si i
                           ((lines ! i)\<lparr>last_used := use_counter st\<rparr>))
        | Inr None \<Rightarrow>
            if miss_count st = INT_MAX then Inl SignedOverflow
            else
              let st1 = st\<lparr>miss_count := miss_count st + 1\<rparr> in
              (case free_scan lines E 0 of
                 Inl e \<Rightarrow> Inl e
               | Inr (Some i) \<Rightarrow>
                   Inr (1, put_line st1 si i
                             ((lines ! i)\<lparr>valid := 1, tag := tg, last_used := use_counter st\<rparr>))
               | Inr None \<Rightarrow>
                   if eviction_count st = INT_MAX then Inl SignedOverflow
                   else
                     let st2 = st1\<lparr>eviction_count := eviction_count st + 1\<rparr> in
                     (case lru_scan lines E 0 ULLONG_MAX 0 of
                        Inl e \<Rightarrow> Inl e
                      | Inr lru_index \<Rightarrow>
                          if \<not> lru_index < length lines then Inl OutOfBounds
                          else Inr (2, put_line st2 si lru_index
                                 ((lines ! lru_index)\<lparr>tag := tg, last_used := use_counter st\<rparr>)))))"

definition access_data :: "int \<Rightarrow> int \<Rightarrow> state \<Rightarrow> u64 \<Rightarrow> error + (int \<times> state)" where
  "access_data s b st addr =
     (case decompose s b addr of
        Inl e \<Rightarrow> Inl e
      | Inr (set_index, tg) \<Rightarrow>
          access_set (unat set_index) tg (st\<lparr>use_counter := use_counter st + 1\<rparr>))"

subsection \<open>replay_trace\<close>

text \<open>
  What \<^verbatim>\<open>sscanf(buf, " %c %llx,%d", ...)\<close> gives for one buffer that \<^verbatim>\<open>fgets\<close> has read:
  \<open>NoMatch\<close> when \<^verbatim>\<open>sscanf\<close> does not return 3, the three converted values otherwise.
\<close>

datatype scanned = NoMatch | Scanned char u64 int

text \<open>
  One iteration of the loop of \<^verbatim>\<open>replay_trace\<close> after the call of \<^verbatim>\<open>sscanf\<close>. The list
  holds the return values of the \<^verbatim>\<open>access_data\<close> calls of this buffer, in order (what
  \<^verbatim>\<open>-v\<close> prints).
\<close>

definition replay_line :: "int \<Rightarrow> int \<Rightarrow> state \<Rightarrow> scanned \<Rightarrow> error + (int list \<times> state)" where
  "replay_line s b st ln =
     (case ln of
        NoMatch \<Rightarrow> Inr ([], st)
      | Scanned op addr sz \<Rightarrow>
          if op = CHR ''I'' then Inr ([], st)
          else if op = CHR ''M'' then
            (case access_data s b st addr of
               Inl e \<Rightarrow> Inl e
             | Inr (r1, st1) \<Rightarrow>
                 (case access_data s b st1 addr of
                    Inl e \<Rightarrow> Inl e
                  | Inr (r2, st2) \<Rightarrow> Inr ([r1, r2], st2)))
          else if op = CHR ''L'' \<or> op = CHR ''S'' then
            (case access_data s b st addr of
               Inl e \<Rightarrow> Inl e
             | Inr (r, st1) \<Rightarrow> Inr ([r], st1))
          else Inr ([], st))"

text \<open>The iterations of the loop on the results of \<^verbatim>\<open>sscanf\<close> for the successive buffers.\<close>

fun replay_lines :: "int \<Rightarrow> int \<Rightarrow> state \<Rightarrow> scanned list \<Rightarrow> error + (int list list \<times> state)" where
  "replay_lines s b st [] = Inr ([], st)"
| "replay_lines s b st (ln # rest) =
     (case replay_line s b st ln of
        Inl e \<Rightarrow> Inl e
      | Inr (rs, st1) \<Rightarrow>
          (case replay_lines s b st1 rest of
             Inl e \<Rightarrow> Inl e
           | Inr (out, st2) \<Rightarrow> Inr (rs # out, st2)))"

text \<open>
  \<^verbatim>\<open>fgets(buf, sizeof(buf), fp)\<close> with a buffer of 256 bytes: \<open>fgets n text\<close> reads at most
  \<open>n\<close> characters of the rest \<open>text\<close> of the file and stops after a newline. It gives the
  characters read and the rest of the file.
\<close>

fun fgets :: "nat \<Rightarrow> string \<Rightarrow> string \<times> string" where
  "fgets 0 text = ([], text)"
| "fgets (Suc n) [] = ([], [])"
| "fgets (Suc n) (c # text) =
     (if c = CHR 0x0A then ([c], text)
      else (case fgets n text of (buf, rest) \<Rightarrow> (c # buf, rest)))"

text \<open>
  The buffers that the calls of \<^verbatim>\<open>fgets\<close> in the loop condition give, until it returns
  NULL at the end of the file. A line of more than 254 characters before its newline
  does not fit and arrives in several buffers.
\<close>

function fgets_bufs :: "string \<Rightarrow> string list" where
  "fgets_bufs text =
     (if text = [] then []
      else (case fgets 255 text of (buf, rest) \<Rightarrow> buf # fgets_bufs rest))"
  by pat_completeness auto
termination
proof (relation "measure length")
  show "wf (measure length)" by simp
next
  fix inp :: string and buf rest
  assume inp: "inp \<noteq> []" and br: "(buf, rest) = fgets 255 inp"
  have shorter: "length (snd (fgets (Suc n) cs)) < length cs" if "cs \<noteq> []" for n cs
    using that
  proof (induction n arbitrary: cs)
    case 0
    then show ?case by (cases cs) (simp_all split: prod.splits)
  next
    case (Suc n)
    from Suc.prems obtain c cs' where cs: "cs = c # cs'" by (cases cs) simp_all
    show ?case
    proof (cases "cs' = []")
      case True
      with cs show ?thesis by (simp split: prod.splits)
    next
      case False
      from Suc.IH [OF False] cs show ?thesis by (auto split: prod.splits)
    qed
  qed
  have "255 = Suc 254" by simp
  with shorter [OF inp, of 254] br have "length rest < length inp"
    by (metis snd_conv)
  then show "(rest, inp) \<in> measure length" by simp
qed

declare fgets_bufs.simps [simp del]

text \<open>
  \<^verbatim>\<open>sscanf(buf, " %c %llx,%d", &op, &addr, &size)\<close> is a function of the C library and no
  part of the program; the model follows its description in ISO C (7.21.6.2). The white
  space that a directive skips is what \<^verbatim>\<open>isspace\<close> accepts in the C locale.
\<close>

definition isspace :: "char \<Rightarrow> bool" where
  "isspace c \<longleftrightarrow>
     c = CHR 0x20 \<or> c = CHR 0x09 \<or> c = CHR 0x0A \<or> c = CHR 0x0B \<or> c = CHR 0x0C \<or> c = CHR 0x0D"

definition hex_digit :: "char \<Rightarrow> int option" where
  "hex_digit c =
     (let n = of_char c :: int in
      if 48 \<le> n \<and> n \<le> 57 then Some (n - 48)
      else if 97 \<le> n \<and> n \<le> 102 then Some (n - 87)
      else if 65 \<le> n \<and> n \<le> 70 then Some (n - 55)
      else None)"

definition dec_digit :: "char \<Rightarrow> int option" where
  "dec_digit c =
     (let n = of_char c :: int in if 48 \<le> n \<and> n \<le> 57 then Some (n - 48) else None)"

text \<open>The number that a sequence of digits denotes in the given base.\<close>

fun digits_value :: "int \<Rightarrow> int \<Rightarrow> int list \<Rightarrow> int" where
  "digits_value base acc [] = acc"
| "digits_value base acc (d # ds) = digits_value base (acc * base + d) ds"

text \<open>An optional sign: whether it is a minus, and the input after it.\<close>

definition scan_sign :: "string \<Rightarrow> bool \<times> string" where
  "scan_sign cs =
     (case cs of
        [] \<Rightarrow> (False, [])
      | c # r \<Rightarrow>
          if c = CHR ''-'' then (True, r)
          else if c = CHR ''+'' then (False, r)
          else (False, cs))"

text \<open>
  The directive \<^verbatim>\<open>%llx\<close>: white space, then an optionally signed hexadecimal integer in
  the format of \<^verbatim>\<open>strtoull\<close> with base 16, which allows the prefix \<^verbatim>\<open>0x\<close> and negates the
  value after a minus sign. \<open>Inr None\<close> is the failure of the directive (no digit, or the
  end of the input), \<open>Inr (Some (v, rest))\<close> the value and the input after it.
  A number that \<^verbatim>\<open>unsigned long long\<close> cannot hold is undefined behaviour. On \<^verbatim>\<open>0x\<close> with
  no hexadecimal digit after it ISO C prescribes a failure and the GNU C library gives
  the value 0: the model decides neither.
\<close>

definition scan_llx :: "string \<Rightarrow> error + (u64 \<times> string) option" where
  "scan_llx cs0 =
     (case scan_sign (dropWhile isspace cs0) of
        (neg, cs1) \<Rightarrow>
          let prefixed = (case cs1 of
                            c0 # cx # r \<Rightarrow> c0 = CHR ''0'' \<and> (cx = CHR ''x'' \<or> cx = CHR ''X'')
                          | _ \<Rightarrow> False);
              cs2 = (if prefixed then drop 2 cs1 else cs1);
              ds = takeWhile (\<lambda>c. hex_digit c \<noteq> None) cs2;
              rest = dropWhile (\<lambda>c. hex_digit c \<noteq> None) cs2;
              v = digits_value 16 0 (map (\<lambda>c. the (hex_digit c)) ds)
          in if ds = [] then (if prefixed then Inl ScanUnspecified else Inr None)
             else if v \<ge> 2 ^ 64 then Inl ScanUndefined
             else Inr (Some (if neg then - word_of_int v else word_of_int v, rest)))"

text \<open>
  The directive \<^verbatim>\<open>%d\<close>: white space, then an optionally signed decimal integer. A number
  that \<^verbatim>\<open>int\<close> cannot hold is undefined behaviour.
\<close>

definition scan_d :: "string \<Rightarrow> error + (int \<times> string) option" where
  "scan_d cs0 =
     (case scan_sign (dropWhile isspace cs0) of
        (neg, cs1) \<Rightarrow>
          let ds = takeWhile (\<lambda>c. dec_digit c \<noteq> None) cs1;
              rest = dropWhile (\<lambda>c. dec_digit c \<noteq> None) cs1;
              v = digits_value 10 0 (map (\<lambda>c. the (dec_digit c)) ds);
              n = (if neg then - v else v)
          in if ds = [] then Inr None
             else if n < - (2 ^ 31) \<or> n > 2 ^ 31 - 1 then Inl ScanUndefined
             else Inr (Some (n, rest)))"

text \<open>
  The whole call on one buffer, a C string that ends at its first null character:
  \<open>NoMatch\<close> when the call does not return 3, the three values otherwise. \<^verbatim>\<open>%c\<close> takes the
  first character after the white space, whatever it is; what follows the size is not
  looked at.
\<close>

definition sscanf_line :: "string \<Rightarrow> error + scanned" where
  "sscanf_line buf =
     (case dropWhile isspace (takeWhile (\<lambda>c. c \<noteq> CHR 0x00) buf) of
        [] \<Rightarrow> Inr NoMatch
      | op # r1 \<Rightarrow>
          (case scan_llx r1 of
             Inl e \<Rightarrow> Inl e
           | Inr None \<Rightarrow> Inr NoMatch
           | Inr (Some (addr, r2)) \<Rightarrow>
               (case r2 of
                  [] \<Rightarrow> Inr NoMatch
                | c # r3 \<Rightarrow>
                    if c \<noteq> CHR '','' then Inr NoMatch
                    else (case scan_d r3 of
                            Inl e \<Rightarrow> Inl e
                          | Inr None \<Rightarrow> Inr NoMatch
                          | Inr (Some (sz, r4)) \<Rightarrow> Inr (Scanned op addr sz)))))"

text \<open>The loop of \<^verbatim>\<open>replay_trace\<close> over the buffers that \<^verbatim>\<open>fgets\<close> gives.\<close>

fun replay_bufs :: "int \<Rightarrow> int \<Rightarrow> state \<Rightarrow> string list \<Rightarrow> error + (int list list \<times> state)" where
  "replay_bufs s b st [] = Inr ([], st)"
| "replay_bufs s b st (buf # rest) =
     (case sscanf_line buf of
        Inl e \<Rightarrow> Inl e
      | Inr ln \<Rightarrow>
          (case replay_line s b st ln of
             Inl e \<Rightarrow> Inl e
           | Inr (rs, st1) \<Rightarrow>
               (case replay_bufs s b st1 rest of
                  Inl e \<Rightarrow> Inl e
                | Inr (out, st2) \<Rightarrow> Inr (rs # out, st2))))"

text \<open>
  \<open>replay_trace\<close> on the contents of the trace file; \<open>None\<close> is a file that \<^verbatim>\<open>fopen\<close>
  cannot open.
\<close>

definition replay_trace :: "int \<Rightarrow> int \<Rightarrow> state \<Rightarrow> string option
    \<Rightarrow> error + (int list list \<times> state)" where
  "replay_trace s b st tracefile =
     (case tracefile of
        None \<Rightarrow> Inl FopenFailed
      | Some text \<Rightarrow> replay_bufs s b st (fgets_bufs text))"

subsection \<open>main\<close>

text \<open>
  Lines 257 to 265: the check of the arguments and the construction of the cache.
  \<open>tracefile\<close> is \<open>None\<close> when no \<^verbatim>\<open>-t\<close> option was given.
\<close>

definition main_init :: "(nat \<Rightarrow> bool) \<Rightarrow> int \<Rightarrow> int \<Rightarrow> int \<Rightarrow> string option \<Rightarrow> error + state" where
  "main_init malloc_null s E b tracefile =
     (if s < 0 \<or> E \<le> 0 \<or> b < 0 \<or> tracefile = None then Inl MissingArgs
      else init_cache malloc_null s E initial_globals)"

text \<open>A sequence of \<^verbatim>\<open>access_data\<close> calls, one per address.\<close>

fun run_accesses :: "int \<Rightarrow> int \<Rightarrow> state \<Rightarrow> u64 list \<Rightarrow> error + state" where
  "run_accesses s b st [] = Inr st"
| "run_accesses s b st (a # as) =
     (case access_data s b st a of
        Inl e \<Rightarrow> Inl e
      | Inr (r, st1) \<Rightarrow> run_accesses s b st1 as)"

subsection \<open>Notions of the specification\<close>

text \<open>
  The number of \<^verbatim>\<open>access_data\<close> calls that the specification counts for a trace line:
  two for a Modify, one for a Load or a Store, none for an Instruction, for an unknown
  operation kind and for a line that does not parse.
\<close>

definition access_calls :: "scanned \<Rightarrow> nat" where
  "access_calls ln =
     (case ln of
        NoMatch \<Rightarrow> 0
      | Scanned op addr sz \<Rightarrow>
          if op = CHR ''M'' then 2
          else if op = CHR ''L'' \<or> op = CHR ''S'' then 1
          else 0)"

definition total_access_calls :: "scanned list \<Rightarrow> nat" where
  "total_access_calls lns = sum_list (map access_calls lns)"

text \<open>
  The address decomposition in the words of the specification:
  \<^verbatim>\<open>set_index = (addr >> b) & ((1<<s)-1)\<close> and \<^verbatim>\<open>tag = addr >> (b+s)\<close>, on 64-bit values.
\<close>

definition spec_set_index :: "nat \<Rightarrow> nat \<Rightarrow> u64 \<Rightarrow> u64" where
  "spec_set_index s b addr = drop_bit b addr AND (push_bit s 1 - 1)"

definition spec_tag :: "nat \<Rightarrow> nat \<Rightarrow> u64 \<Rightarrow> u64" where
  "spec_tag s b addr = drop_bit (b + s) addr"

text \<open>A run in which no call of \<^verbatim>\<open>malloc\<close> returns NULL.\<close>

definition never_null :: "nat \<Rightarrow> bool" where
  "never_null k = False"

text \<open>The line \<open>i\<close> of set \<open>si\<close>.\<close>

definition line_at :: "state \<Rightarrow> nat \<Rightarrow> nat \<Rightarrow> line_t" where
  "line_at st si i = cache_sets (cache st) ! si ! i"

subsection \<open>Invariants\<close>

text \<open>
  What holds of the lines of one set when the access counter is \<open>uc\<close>: the time stamps
  of the valid lines lie between 1 and \<open>uc\<close> and differ from each other.
\<close>

definition set_ok :: "u64 \<Rightarrow> line_t list \<Rightarrow> bool" where
  "set_ok uc lines \<longleftrightarrow>
     (\<forall>i<length lines. valid (lines ! i) \<noteq> 0 \<longrightarrow>
        1 \<le> uint (last_used (lines ! i)) \<and> uint (last_used (lines ! i)) \<le> uint uc) \<and>
     (\<forall>i<length lines. \<forall>j<length lines.
        i \<noteq> j \<and> valid (lines ! i) \<noteq> 0 \<and> valid (lines ! j) \<noteq> 0 \<longrightarrow>
        last_used (lines ! i) \<noteq> last_used (lines ! j))"

text \<open>
  What holds of every state that \<^verbatim>\<open>access_data\<close> calls reach from a constructed cache.
  The access counter equals the number of calls, which the two signed counters bound, so
  it has not wrapped around.
\<close>

definition state_ok :: "state \<Rightarrow> bool" where
  "state_ok st \<longleftrightarrow>
     0 \<le> hit_count st \<and> hit_count st \<le> INT_MAX \<and>
     0 \<le> miss_count st \<and> miss_count st \<le> INT_MAX \<and>
     0 \<le> eviction_count st \<and> eviction_count st \<le> miss_count st \<and>
     uint (use_counter st) = hit_count st + miss_count st \<and>
     (\<forall>lines \<in> set (cache_sets (cache st)). set_ok (use_counter st) lines)"

text \<open>
  The invariant of the scan for the least recently used line, before iteration \<open>i\<close>, on
  its two variables \<open>m\<close> (\<^verbatim>\<open>min_used\<close>) and \<open>l\<close> (\<^verbatim>\<open>lru_index\<close>).
\<close>

definition lru_inv :: "line_t list \<Rightarrow> nat \<Rightarrow> u64 \<Rightarrow> nat \<Rightarrow> bool" where
  "lru_inv lines i m l \<longleftrightarrow>
     (i = 0 \<longrightarrow> l = 0 \<and> m = ULLONG_MAX) \<and>
     (0 < i \<longrightarrow> l < i \<and> last_used (lines ! l) = m) \<and>
     (\<forall>j<i. m \<le> last_used (lines ! j)) \<and>
     (\<forall>j<l. m < last_used (lines ! j))"

text \<open>The shape of a constructed cache: \<open>2^s\<close> sets of \<open>cache.E\<close> lines each.\<close>

definition wf_cache :: "int \<Rightarrow> state \<Rightarrow> bool" where
  "wf_cache s st \<longleftrightarrow>
     length (cache_sets (cache st)) = 2 ^ nat s \<and>
     (\<forall>lines \<in> set (cache_sets (cache st)). int (length lines) = cache_E (cache st))"

subsection \<open>Example runs\<close>

text \<open>The cache that \<^verbatim>\<open>-s 1 -E 1 -b 0\<close> constructs: two sets of one line.\<close>

definition fresh_2x1 :: state where
  "fresh_2x1 =
     \<lparr>cache = \<lparr>cache_sets = [ [invalid_line], [invalid_line]], cache_S = 2, cache_E = 1\<rparr>,
      hit_count = 0, miss_count = 0, eviction_count = 0, use_counter = 0\<rparr>"

text \<open>A trace of five lines and the state after its replay on that cache.\<close>

definition trace_a :: "scanned list" where
  "trace_a = [Scanned CHR ''L'' 0 1, Scanned CHR ''I'' 4 1, NoMatch, Scanned CHR ''S'' 2 1,
              Scanned CHR ''M'' 7 1]"

definition final_a :: state where
  "final_a =
     \<lparr>cache = \<lparr>cache_sets = [ [\<lparr>valid = 1, tag = 1, last_used = 2\<rparr>],
                              [\<lparr>valid = 1, tag = 3, last_used = 4\<rparr>]],
                cache_S = 2, cache_E = 1\<rparr>,
      hit_count = 1, miss_count = 3, eviction_count = 1, use_counter = 4\<rparr>"

text \<open>
  A full set of three lines in which the lines 1 and 2 share the smallest time stamp
  (\<^verbatim>\<open>-s 0 -E 3 -b 0\<close>), and the state after an access to address 7.
\<close>

definition full_tie :: state where
  "full_tie =
     \<lparr>cache = \<lparr>cache_sets = [ [\<lparr>valid = 1, tag = 5, last_used = 4\<rparr>,
                               \<lparr>valid = 1, tag = 6, last_used = 3\<rparr>,
                               \<lparr>valid = 1, tag = 8, last_used = 3\<rparr>]],
                cache_S = 1, cache_E = 3\<rparr>,
      hit_count = 2, miss_count = 3, eviction_count = 0, use_counter = 5\<rparr>"

definition after_tie :: state where
  "after_tie =
     \<lparr>cache = \<lparr>cache_sets = [ [\<lparr>valid = 1, tag = 5, last_used = 4\<rparr>,
                               \<lparr>valid = 1, tag = 7, last_used = 6\<rparr>,
                               \<lparr>valid = 1, tag = 8, last_used = 3\<rparr>]],
                cache_S = 1, cache_E = 3\<rparr>,
      hit_count = 2, miss_count = 4, eviction_count = 1, use_counter = 6\<rparr>"

text \<open>The state after a further access to address 4 in state \<open>final_a\<close>.\<close>

definition after_a :: state where
  "after_a =
     \<lparr>cache = \<lparr>cache_sets = [ [\<lparr>valid = 1, tag = 2, last_used = 5\<rparr>],
                              [\<lparr>valid = 1, tag = 3, last_used = 4\<rparr>]],
                cache_S = 2, cache_E = 1\<rparr>,
      hit_count = 1, miss_count = 4, eviction_count = 2, use_counter = 5\<rparr>"

text \<open>The cache that \<^verbatim>\<open>-s 4 -E 1 -b 60\<close> constructs: sixteen sets of one line.\<close>

definition fresh_16x1 :: state where
  "fresh_16x1 =
     \<lparr>cache = \<lparr>cache_sets = replicate 16 [invalid_line], cache_S = 16, cache_E = 1\<rparr>,
      hit_count = 0, miss_count = 0, eviction_count = 0, use_counter = 0\<rparr>"

text \<open>
  The cache that \<^verbatim>\<open>-s 0 -E 2 -b 0\<close> constructs (one set of two lines), the state after
  accesses to the addresses 1, 2 and 1, and the state after a further access to 3.
\<close>

definition fresh_1x2 :: state where
  "fresh_1x2 =
     \<lparr>cache = \<lparr>cache_sets = [ [invalid_line, invalid_line]], cache_S = 1, cache_E = 2\<rparr>,
      hit_count = 0, miss_count = 0, eviction_count = 0, use_counter = 0\<rparr>"

definition mid_b :: state where
  "mid_b =
     \<lparr>cache = \<lparr>cache_sets = [ [\<lparr>valid = 1, tag = 1, last_used = 3\<rparr>,
                               \<lparr>valid = 1, tag = 2, last_used = 2\<rparr>]],
                cache_S = 1, cache_E = 2\<rparr>,
      hit_count = 1, miss_count = 2, eviction_count = 0, use_counter = 3\<rparr>"

definition after_b :: state where
  "after_b =
     \<lparr>cache = \<lparr>cache_sets = [ [\<lparr>valid = 1, tag = 1, last_used = 3\<rparr>,
                               \<lparr>valid = 1, tag = 3, last_used = 4\<rparr>]],
                cache_S = 1, cache_E = 2\<rparr>,
      hit_count = 1, miss_count = 3, eviction_count = 1, use_counter = 4\<rparr>"

text \<open>
  The cache that \<^verbatim>\<open>-s 0 -E 1 -b 0\<close> constructs, a single line, and its states: the line
  and the four counters.
\<close>

definition cache_1x1 :: "line_t \<Rightarrow> int \<Rightarrow> int \<Rightarrow> int \<Rightarrow> u64 \<Rightarrow> state" where
  "cache_1x1 l h m e uc =
     \<lparr>cache = \<lparr>cache_sets = [ [l]], cache_S = 1, cache_E = 1\<rparr>,
      hit_count = h, miss_count = m, eviction_count = e, use_counter = uc\<rparr>"

definition fresh_1x1 :: state where
  "fresh_1x1 = cache_1x1 invalid_line 0 0 0 0"

text \<open>The state of that cache after \<open>k + 1\<close> accesses to address 0: one miss, \<open>k\<close> hits.\<close>

definition hits_state :: "nat \<Rightarrow> state" where
  "hits_state k =
     cache_1x1 \<lparr>valid = 1, tag = 0, last_used = of_nat (Suc k)\<rparr> (int k) 1 0 (of_nat (Suc k))"

text \<open>
  The state of that cache after \<open>j\<close> times an access to address 0 and one to address 1
  (\<open>j \<ge> 1\<close>): every access is a miss, every one but the first an eviction.
\<close>

definition thrash_state :: "nat \<Rightarrow> state" where
  "thrash_state j =
     cache_1x1 \<lparr>valid = 1, tag = 1, last_used = of_nat (2 * j)\<rparr>
       0 (int (2 * j)) (int (2 * j) - 1) (of_nat (2 * j))"

text \<open>
  A trace file of five lines whose buffers \<^verbatim>\<open>sscanf\<close> converts to \<open>trace_a\<close>.
\<close>

definition text_a :: string where
  "text_a = ''L 0,1'' @ [CHR 0x0A] @ ''I 4,1'' @ [CHR 0x0A] @ ''xyz'' @ [CHR 0x0A] @
            '' S 2,1'' @ [CHR 0x0A] @ '' M 7,1'' @ [CHR 0x0A]"

text \<open>
  Two trace lines of 261 characters before the newline. The first has kind \<open>I\<close>, the
  second does not parse; in both the characters from position 255 on are \<^verbatim>\<open>L 10,1\<close>.
  The state is that of the cache \<open>fresh_2x1\<close> after a load of address \<^verbatim>\<open>0x10\<close>.
\<close>

definition long_line_I :: string where
  "long_line_I = ''I 0,1'' @ replicate 250 (CHR 0x20) @ ''L 10,1'' @ [CHR 0x0A]"

definition long_line_bad :: string where
  "long_line_bad = ''L zz'' @ replicate 251 (CHR 0x20) @ ''L 10,1'' @ [CHR 0x0A]"

definition after_long :: state where
  "after_long =
     \<lparr>cache = \<lparr>cache_sets = [ [\<lparr>valid = 1, tag = 8, last_used = 1\<rparr>], [invalid_line]],
                cache_S = 2, cache_E = 1\<rparr>,
      hit_count = 0, miss_count = 1, eviction_count = 0, use_counter = 1\<rparr>"

section \<open>Properties of the three scans\<close>

lemma hit_scan_Some:
  "hit_scan lines E tg i = Inr (Some k) \<Longrightarrow>
     i \<le> k \<and> int k < E \<and> k < length lines \<and> valid (lines ! k) \<noteq> 0 \<and> tag (lines ! k) = tg \<and>
     (\<forall>j. i \<le> j \<and> j < k \<longrightarrow> \<not> (valid (lines ! j) \<noteq> 0 \<and> tag (lines ! j) = tg))"
proof (induction lines E tg i rule: hit_scan.induct)
  case (1 lines E tg i)
  note eq = "1.prems" [unfolded hit_scan.simps [of lines E tg i]]
  show ?case
  proof (cases "valid (lines ! i) \<noteq> 0 \<and> tag (lines ! i) = tg")
    case True
    with eq show ?thesis by (auto split: if_splits)
  next
    case False
    with eq have bnd: "int i < E" "i < length lines"
      and rec: "hit_scan lines E tg (Suc i) = Inr (Some k)"
      by (auto split: if_splits)
    note ih = "1.IH" [OF bnd False rec]
    have "\<not> (valid (lines ! j) \<noteq> 0 \<and> tag (lines ! j) = tg)" if "i \<le> j" "j < k" for j
    proof (cases "j = i")
      case True
      with False show ?thesis by simp
    next
      case False
      with that have "Suc i \<le> j" by simp
      with ih that show ?thesis by blast
    qed
    with ih show ?thesis by (simp add: Suc_le_eq less_imp_le)
  qed
qed


lemma free_scan_Some:
  "free_scan lines E i = Inr (Some k) \<Longrightarrow>
     i \<le> k \<and> int k < E \<and> k < length lines \<and> valid (lines ! k) = 0 \<and>
     (\<forall>j. i \<le> j \<and> j < k \<longrightarrow> valid (lines ! j) \<noteq> 0)"
proof (induction lines E i rule: free_scan.induct)
  case (1 lines E i)
  note eq = "1.prems" [unfolded free_scan.simps [of lines E i]]
  show ?case
  proof (cases "valid (lines ! i) = 0")
    case True
    with eq show ?thesis by (auto split: if_splits)
  next
    case False
    with eq have bnd: "int i < E" "i < length lines"
      and rec: "free_scan lines E (Suc i) = Inr (Some k)"
      by (auto split: if_splits)
    note ih = "1.IH" [OF bnd False rec]
    have "valid (lines ! j) \<noteq> 0" if "i \<le> j" "j < k" for j
    proof (cases "j = i")
      case True
      with False show ?thesis by simp
    next
      case False
      with that have "Suc i \<le> j" by simp
      with ih that show ?thesis by blast
    qed
    with ih show ?thesis by (simp add: Suc_le_eq less_imp_le)
  qed
qed

lemma free_scan_None:
  "free_scan lines E i = Inr None \<Longrightarrow> i \<le> j \<Longrightarrow> int j < E \<Longrightarrow>
     j < length lines \<and> valid (lines ! j) \<noteq> 0"
proof (induction lines E i rule: free_scan.induct)
  case (1 lines E i)
  note eq = "1.prems"(1) [unfolded free_scan.simps [of lines E i]]
  from eq "1.prems"(2,3) have bnd: "int i < E" "i < length lines"
    and used: "valid (lines ! i) \<noteq> 0"
    and rec: "free_scan lines E (Suc i) = Inr None"
    by (auto split: if_splits)
  show ?case
  proof (cases "i = j")
    case True
    with bnd used show ?thesis by simp
  next
    case False
    with "1.prems"(2) have "Suc i \<le> j" by simp
    from "1.IH" [OF bnd used rec this "1.prems"(3)] show ?thesis .
  qed
qed

lemma lru_inv_step_less:
  assumes "lru_inv lines i m l" "last_used (lines ! i) < m"
  shows "lru_inv lines (Suc i) (last_used (lines ! i)) i"
  using assms unfolding lru_inv_def
  by (auto simp: less_Suc_eq intro: less_imp_le order.strict_trans2 order.trans)

lemma lru_inv_step_keep:
  assumes "lru_inv lines i m l" "\<not> last_used (lines ! i) < m"
  shows "lru_inv lines (Suc i) m l"
proof -
  from assms(2) have le: "m \<le> last_used (lines ! i)" by simp
  have "last_used (lines ! 0) = m" if "i = 0"
  proof -
    from that assms(1) have "m = - 1" by (simp add: lru_inv_def ULLONG_MAX_def)
    with le that show ?thesis by (simp add: word_order.extremum_unique)
  qed
  with assms(1) le show ?thesis
    unfolding lru_inv_def by (auto simp: less_Suc_eq)
qed

lemma lru_scan_inv:
  "lru_scan lines E i m l = Inr k \<Longrightarrow> lru_inv lines i m l \<Longrightarrow> int i \<le> E \<Longrightarrow>
     \<exists>m'. lru_inv lines (nat E) m' k"
proof (induction lines E i m l rule: lru_scan.induct)
  case (1 lines E i m l)
  note eq = "1.prems"(1) [unfolded lru_scan.simps [of lines E i m l]]
  show ?case
  proof (cases "int i < E")
    case False
    with "1.prems"(3) have "nat E = i" by simp
    moreover from eq False have "k = l" by simp
    ultimately show ?thesis using "1.prems"(2) by auto
  next
    case True
    with eq have len: "i < length lines" by (auto split: if_splits)
    from True have nxt: "int (Suc i) \<le> E" by simp
    show ?thesis
    proof (cases "last_used (lines ! i) < m")
      case lt: True
      with eq True len have "lru_scan lines E (Suc i) (last_used (lines ! i)) i = Inr k" by simp
      from "1.IH"(1) [OF True len lt this lru_inv_step_less [OF "1.prems"(2) lt] nxt]
      show ?thesis .
    next
      case ge: False
      with eq True len have "lru_scan lines E (Suc i) m l = Inr k" by simp
      from "1.IH"(2) [OF True len ge this lru_inv_step_keep [OF "1.prems"(2) ge] nxt]
      show ?thesis .
    qed
  qed
qed

lemma lru_scan_bounds:
  "lru_scan lines E i m l = Inr k \<Longrightarrow> i \<le> j \<Longrightarrow> int j < E \<Longrightarrow> j < length lines"
proof (induction lines E i m l rule: lru_scan.induct)
  case (1 lines E i m l)
  note eq = "1.prems"(1) [unfolded lru_scan.simps [of lines E i m l]]
  from "1.prems"(2,3) have lt: "int i < E" by simp
  with eq have len: "i < length lines" by (auto split: if_splits)
  show ?case
  proof (cases "i = j")
    case True
    with len show ?thesis by simp
  next
    case False
    with "1.prems"(2) have nxt: "Suc i \<le> j" by simp
    show ?thesis
    proof (cases "last_used (lines ! i) < m")
      case True
      with eq lt len have "lru_scan lines E (Suc i) (last_used (lines ! i)) i = Inr k" by simp
      from "1.IH"(1) [OF lt len True this nxt "1.prems"(3)] show ?thesis .
    next
      case ge: False
      with eq lt len have "lru_scan lines E (Suc i) m l = Inr k" by simp
      from "1.IH"(2) [OF lt len ge this nxt "1.prems"(3)] show ?thesis .
    qed
  qed
qed

lemma lru_scan_min:
  assumes "lru_scan lines E 0 ULLONG_MAX 0 = Inr k" "0 < E"
  shows "int k < E \<and> k < length lines \<and>
         (\<forall>j. int j < E \<longrightarrow> last_used (lines ! k) \<le> last_used (lines ! j)) \<and>
         (\<forall>j<k. last_used (lines ! k) < last_used (lines ! j))"
proof -
  have "lru_inv lines 0 ULLONG_MAX 0" by (simp add: lru_inv_def)
  from lru_scan_inv [OF assms(1) this] assms(2)
  obtain m' where inv: "lru_inv lines (nat E) m' k" by auto
  from assms(2) have pos: "0 < nat E" by simp
  from inv pos have k: "k < nat E" "last_used (lines ! k) = m'"
    by (simp_all add: lru_inv_def)
  from k(1) have kE: "int k < E" by simp
  from lru_scan_bounds [OF assms(1) _ kE] have "k < length lines" by simp
  moreover from inv k(2) have "\<forall>j. int j < E \<longrightarrow> last_used (lines ! k) \<le> last_used (lines ! j)"
    by (auto simp: lru_inv_def)
  moreover from inv k(2) have "\<forall>j<k. last_used (lines ! k) < last_used (lines ! j)"
    by (simp add: lru_inv_def)
  ultimately show ?thesis using kE by simp
qed

section \<open>The outcomes of an access\<close>

lemma put_line_fields [simp]:
  "hit_count (put_line st si i l) = hit_count st"
  "miss_count (put_line st si i l) = miss_count st"
  "eviction_count (put_line st si i l) = eviction_count st"
  "use_counter (put_line st si i l) = use_counter st"
  "cache_S (cache (put_line st si i l)) = cache_S (cache st)"
  "cache_E (cache (put_line st si i l)) = cache_E (cache st)"
  "cache_sets (cache (put_line st si i l)) =
     (cache_sets (cache st))[si := (cache_sets (cache st) ! si)[i := l]]"
  by (simp_all add: put_line_def)

lemma access_set_cases:
  assumes "access_set si tg st = Inr (r, st')"
  obtains
    (hit) i where "si < length (cache_sets (cache st))"
      "hit_scan (cache_sets (cache st) ! si) (cache_E (cache st)) tg 0 = Inr (Some i)"
      "hit_count st \<noteq> INT_MAX" "r = 0"
      "st' = put_line (st\<lparr>hit_count := hit_count st + 1\<rparr>) si i
               ((cache_sets (cache st) ! si ! i)\<lparr>last_used := use_counter st\<rparr>)"
  | (fill) i where "si < length (cache_sets (cache st))"
      "hit_scan (cache_sets (cache st) ! si) (cache_E (cache st)) tg 0 = Inr None"
      "miss_count st \<noteq> INT_MAX"
      "free_scan (cache_sets (cache st) ! si) (cache_E (cache st)) 0 = Inr (Some i)" "r = 1"
      "st' = put_line (st\<lparr>miss_count := miss_count st + 1\<rparr>) si i
               ((cache_sets (cache st) ! si ! i)\<lparr>valid := 1, tag := tg, last_used := use_counter st\<rparr>)"
  | (evict) k where "si < length (cache_sets (cache st))"
      "hit_scan (cache_sets (cache st) ! si) (cache_E (cache st)) tg 0 = Inr None"
      "miss_count st \<noteq> INT_MAX"
      "free_scan (cache_sets (cache st) ! si) (cache_E (cache st)) 0 = Inr None"
      "eviction_count st \<noteq> INT_MAX"
      "lru_scan (cache_sets (cache st) ! si) (cache_E (cache st)) 0 ULLONG_MAX 0 = Inr k"
      "k < length (cache_sets (cache st) ! si)" "r = 2"
      "st' = put_line (st\<lparr>miss_count := miss_count st + 1, eviction_count := eviction_count st + 1\<rparr>)
               si k ((cache_sets (cache st) ! si ! k)\<lparr>tag := tg, last_used := use_counter st\<rparr>)"
  using assms unfolding access_set_def Let_def
  by (auto split: if_splits sum.splits option.splits)

text \<open>The three ways in which a call of access_data returns.\<close>

lemma access_data_cases:
  assumes "access_data s b st addr = Inr (r, st')"
  obtains
    (hit) si tg i where "decompose s b addr = Inr (si, tg)"
      "unat si < length (cache_sets (cache st))"
      "hit_scan (cache_sets (cache st) ! unat si) (cache_E (cache st)) tg 0 = Inr (Some i)"
      "hit_count st \<noteq> INT_MAX" "r = 0"
      "st' = put_line (st\<lparr>use_counter := use_counter st + 1, hit_count := hit_count st + 1\<rparr>)
               (unat si) i
               ((cache_sets (cache st) ! unat si ! i)\<lparr>last_used := use_counter st + 1\<rparr>)"
  | (fill) si tg i where "decompose s b addr = Inr (si, tg)"
      "unat si < length (cache_sets (cache st))"
      "hit_scan (cache_sets (cache st) ! unat si) (cache_E (cache st)) tg 0 = Inr None"
      "miss_count st \<noteq> INT_MAX"
      "free_scan (cache_sets (cache st) ! unat si) (cache_E (cache st)) 0 = Inr (Some i)"
      "r = 1"
      "st' = put_line (st\<lparr>use_counter := use_counter st + 1, miss_count := miss_count st + 1\<rparr>)
               (unat si) i
               ((cache_sets (cache st) ! unat si ! i)
                  \<lparr>valid := 1, tag := tg, last_used := use_counter st + 1\<rparr>)"
  | (evict) si tg k where "decompose s b addr = Inr (si, tg)"
      "unat si < length (cache_sets (cache st))"
      "hit_scan (cache_sets (cache st) ! unat si) (cache_E (cache st)) tg 0 = Inr None"
      "miss_count st \<noteq> INT_MAX"
      "free_scan (cache_sets (cache st) ! unat si) (cache_E (cache st)) 0 = Inr None"
      "eviction_count st \<noteq> INT_MAX"
      "lru_scan (cache_sets (cache st) ! unat si) (cache_E (cache st)) 0 ULLONG_MAX 0 = Inr k"
      "k < length (cache_sets (cache st) ! unat si)" "r = 2"
      "st' = put_line (st\<lparr>use_counter := use_counter st + 1, miss_count := miss_count st + 1,
                           eviction_count := eviction_count st + 1\<rparr>)
               (unat si) k
               ((cache_sets (cache st) ! unat si ! k)\<lparr>tag := tg, last_used := use_counter st + 1\<rparr>)"
proof -
  from assms obtain si tg where d: "decompose s b addr = Inr (si, tg)"
    and a: "access_set (unat si) tg (st\<lparr>use_counter := use_counter st + 1\<rparr>) = Inr (r, st')"
    by (auto simp: access_data_def split: sum.splits)
  from a show thesis
  proof (cases rule: access_set_cases)
    case (hit i)
    with d show ?thesis by (intro that(1) [of si tg i]) simp_all
  next
    case (fill i)
    with d show ?thesis by (intro that(2) [of si tg i]) simp_all
  next
    case (evict k)
    with d show ?thesis by (intro that(3) [of si tg k]) simp_all
  qed
qed

section \<open>Construction\<close>

lemma init_sets_result:
  "init_sets malloc_null E S i acc = Inr ss \<Longrightarrow> i \<le> S \<Longrightarrow>
     ss = acc @ replicate (S - i) (replicate (nat E) invalid_line)"
proof (induction malloc_null E S i acc rule: init_sets.induct)
  case (1 malloc_null E S i acc)
  note eq = "1.prems"(1) [unfolded init_sets.simps [of malloc_null E S i acc]]
  show ?case
  proof (cases "i < S")
    case False
    with eq "1.prems"(2) show ?thesis by simp
  next
    case True
    with eq have ok: "\<not> malloc_null (Suc i)"
      and rec: "init_sets malloc_null E S (Suc i) (acc @ [replicate (nat E) invalid_line]) = Inr ss"
      by (auto split: if_splits)
    from True have "Suc i \<le> S" by simp
    from "1.IH" [OF True ok rec this] True show ?thesis
      by (simp add: Suc_diff_Suc replicate_app_Cons_same flip: replicate_Suc)
  qed
qed

lemma init_sets_succeeds:
  "i \<le> S \<Longrightarrow> \<forall>k. i < k \<and> k \<le> S \<longrightarrow> \<not> malloc_null k \<Longrightarrow>
     \<exists>ss. init_sets malloc_null E S i acc = Inr ss"
proof (induction malloc_null E S i acc rule: init_sets.induct)
  case (1 malloc_null E S i acc)
  show ?case
  proof (cases "i < S")
    case False
    then show ?thesis by (simp add: init_sets.simps [of malloc_null E S i acc])
  next
    case True
    with "1.prems"(2) have ok: "\<not> malloc_null (Suc i)" by simp
    from True have le: "Suc i \<le> S" by simp
    from "1.prems"(2) have "\<forall>k. Suc i < k \<and> k \<le> S \<longrightarrow> \<not> malloc_null k" by simp
    from "1.IH" [OF True ok le this] True ok show ?thesis
      by (simp add: init_sets.simps [of malloc_null E S i acc])
  qed
qed

lemma init_cache_result:
  assumes "init_cache malloc_null s E st = Inr st'"
  shows "st' = st\<lparr>cache := \<lparr>cache_sets = replicate (2 ^ nat s) (replicate (nat E) invalid_line),
                             cache_S = 2 ^ nat s, cache_E = E\<rparr>\<rparr>"
    and "0 \<le> s" and "s \<le> 60"
proof -
  from assms obtain ss where s: "\<not> s \<ge> 64" "\<not> s < 0"
    and sz: "\<not> sizeof_set_t * int (2 ^ nat s) \<ge> 2 ^ 64"
    and ss: "init_sets malloc_null E (2 ^ nat s) 0 [] = Inr ss"
    and st': "st' = st\<lparr>cache := \<lparr>cache_sets = ss, cache_S = 2 ^ nat s, cache_E = E\<rparr>\<rparr>"
    by (auto simp: init_cache_def Let_def split: if_splits sum.splits)
  from init_sets_result [OF ss] st'
  show "st' = st\<lparr>cache := \<lparr>cache_sets = replicate (2 ^ nat s) (replicate (nat E) invalid_line),
                             cache_S = 2 ^ nat s, cache_E = E\<rparr>\<rparr>" by simp
  from s show "0 \<le> s" by simp
  show "s \<le> 60"
  proof (rule ccontr)
    assume "\<not> s \<le> 60"
    then have "61 \<le> nat s" by simp
    then have "(2::int) ^ 61 \<le> 2 ^ nat s" by (rule power_increasing) simp
    with sz show False by (simp add: sizeof_set_t_def)
  qed
qed

lemma main_init_result:
  assumes "main_init malloc_null s E b tracefile = Inr st"
  shows "st = initial_globals\<lparr>cache := \<lparr>cache_sets = replicate (2 ^ nat s) (replicate (nat E) invalid_line),
                             cache_S = 2 ^ nat s, cache_E = E\<rparr>\<rparr>"
    and "0 \<le> s" and "s \<le> 60" and "0 < E" and "0 \<le> b" and "tracefile \<noteq> None"
proof -
  from assms have args: "\<not> (s < 0 \<or> E \<le> 0 \<or> b < 0 \<or> tracefile = None)"
    and ic: "init_cache malloc_null s E initial_globals = Inr st"
    by (auto simp: main_init_def split: if_splits)
  from init_cache_result [OF ic]
  show "st = initial_globals\<lparr>cache := \<lparr>cache_sets = replicate (2 ^ nat s) (replicate (nat E) invalid_line),
                             cache_S = 2 ^ nat s, cache_E = E\<rparr>\<rparr>" "0 \<le> s" "s \<le> 60" .
  from args show "0 < E" "0 \<le> b" "tracefile \<noteq> None" by auto
qed

lemma main_init_succeeds:
  assumes "0 \<le> s" "s \<le> 60" "0 < E" "0 \<le> b" "tracefile \<noteq> None"
    and "\<forall>k \<le> 2 ^ nat s. \<not> malloc_null k"
  shows "\<exists>st. main_init malloc_null s E b tracefile = Inr st"
proof -
  from assms(2) assms(1) have "nat s \<le> 60" by simp
  then have "(2::int) ^ nat s \<le> 2 ^ 60" by (rule power_increasing) simp
  then have sz: "\<not> sizeof_set_t * int (2 ^ nat s) \<ge> 2 ^ 64"
    by (simp add: sizeof_set_t_def)
  from assms(6) have "\<forall>k. 0 < k \<and> k \<le> 2 ^ nat s \<longrightarrow> \<not> malloc_null k" by simp
  from init_sets_succeeds [OF _ this, of E "[]"]
  obtain ss where "init_sets malloc_null E (2 ^ nat s) 0 [] = Inr ss" by auto
  with assms sz show ?thesis
    by (simp add: main_init_def init_cache_def Let_def)
qed

section \<open>The invariant of the reachable states\<close>

lemma uint_succ:
  fixes uc :: u64
  assumes "uint uc < 2 ^ 64 - 1"
  shows "uint (uc + 1) = uint uc + 1"
proof -
  have "uint (uc + 1) = (uint uc + 1) mod 2 ^ 64"
    by (simp add: uint_word_ariths)
  also from assms have "\<dots> = uint uc + 1"
    by (simp add: mod_pos_pos_trivial)
  finally show ?thesis .
qed

lemma set_ok_update:
  assumes ok: "set_ok uc lines" and k: "k < length lines"
    and uc: "uint uc < 2 ^ 64 - 1" and l: "last_used l = uc + 1"
  shows "set_ok (uc + 1) (lines[k := l])"
proof -
  note suc = uint_succ [OF uc]
  have stamp: "uint (last_used (lines ! i)) \<le> uint uc" "1 \<le> uint (last_used (lines ! i))"
    if "i < length lines" "valid (lines ! i) \<noteq> 0" for i
    using ok that by (auto simp: set_ok_def)
  have neq: "last_used (lines ! i) \<noteq> uc + 1" if "i < length lines" "valid (lines ! i) \<noteq> 0" for i
  proof
    assume "last_used (lines ! i) = uc + 1"
    with stamp(1) [OF that] suc show False by simp
  qed
  have le: "uint (last_used (lines ! i)) \<le> uint (uc + 1)"
    if "i < length lines" "valid (lines ! i) \<noteq> 0" for i
    using stamp(1) [OF that] suc by simp
  have one: "1 \<le> uint (uc + 1)" using suc by simp
  have bounds: "1 \<le> uint (last_used (lines[k := l] ! i)) \<and>
      uint (last_used (lines[k := l] ! i)) \<le> uint (uc + 1)"
    if "i < length lines" "valid (lines[k := l] ! i) \<noteq> 0" for i
  proof (cases "i = k")
    case True
    with k l one show ?thesis by simp
  next
    case False
    with that stamp(2) [of i] le [of i] show ?thesis by simp
  qed
  have distinct: "last_used (lines[k := l] ! i) \<noteq> last_used (lines[k := l] ! j)"
    if "i < length lines" "j < length lines" and ij: "i \<noteq> j"
      and "valid (lines[k := l] ! i) \<noteq> 0" "valid (lines[k := l] ! j) \<noteq> 0" for i j
  proof -
    consider "i = k" "j \<noteq> k" | "i \<noteq> k" "j = k" | "i \<noteq> k" "j \<noteq> k"
      using ij by blast
    then show ?thesis
    proof cases
      case 1
      with that k l neq [of j] show ?thesis by simp
    next
      case 2
      with that k l neq [of i] show ?thesis by simp
    next
      case 3
      with that ok show ?thesis by (simp add: set_ok_def)
    qed
  qed
  from bounds distinct show ?thesis
    unfolding set_ok_def by simp
qed

lemma set_ok_mono:
  assumes ok: "set_ok uc lines" and uc: "uint uc < 2 ^ 64 - 1"
  shows "set_ok (uc + 1) lines"
  using ok uint_succ [OF uc] unfolding set_ok_def by fastforce


lemma sets_ok_put:
  assumes ok: "\<forall>lines \<in> set sets. set_ok uc lines" and si: "si < length sets"
    and k: "k < length (sets ! si)" and uc: "uint uc < 2 ^ 64 - 1"
    and l: "last_used l = uc + 1"
  shows "\<forall>lines \<in> set (sets[si := (sets ! si)[k := l]]). set_ok (uc + 1) lines"
proof
  fix lines
  assume "lines \<in> set (sets[si := (sets ! si)[k := l]])"
  then have "lines = (sets ! si)[k := l] \<or> lines \<in> set sets"
    using set_update_subset_insert [of sets si "(sets ! si)[k := l]"] by auto
  then show "set_ok (uc + 1) lines"
  proof
    assume eq: "lines = (sets ! si)[k := l]"
    from ok si have "set_ok uc (sets ! si)" by simp
    from set_ok_update [OF this k uc l] eq show ?thesis by simp
  next
    assume "lines \<in> set sets"
    with ok have "set_ok uc lines" by simp
    from set_ok_mono [OF this uc] show ?thesis .
  qed
qed

lemma state_ok_access:
  assumes ok: "state_ok st" and acc: "access_data s b st addr = Inr (r, st')"
  shows "state_ok st'"
proof -
  from ok have cnt: "0 \<le> hit_count st" "hit_count st \<le> INT_MAX"
      "0 \<le> miss_count st" "miss_count st \<le> INT_MAX"
      "0 \<le> eviction_count st" "eviction_count st \<le> miss_count st"
    and uc: "uint (use_counter st) = hit_count st + miss_count st"
    and sets: "\<forall>lines \<in> set (cache_sets (cache st)). set_ok (use_counter st) lines"
    by (simp_all add: state_ok_def)
  from cnt uc have small: "uint (use_counter st) < 2 ^ 64 - 1"
    by (simp add: INT_MAX_def)
  note suc = uint_succ [OF small]
  from acc show ?thesis
  proof (cases rule: access_data_cases)
    case (hit si tg i)
    from hit_scan_Some [OF hit(3)] have i: "i < length (cache_sets (cache st) ! unat si)" by simp
    from sets_ok_put [OF sets hit(2) i small, of "(cache_sets (cache st) ! unat si ! i)\<lparr>last_used := use_counter st + 1\<rparr>"]
    show ?thesis using hit cnt uc suc by (simp add: state_ok_def)
  next
    case (fill si tg i)
    from free_scan_Some [OF fill(5)] have i: "i < length (cache_sets (cache st) ! unat si)" by simp
    from sets_ok_put [OF sets fill(2) i small, of "(cache_sets (cache st) ! unat si ! i)\<lparr>valid := 1, tag := tg, last_used := use_counter st + 1\<rparr>"]
    show ?thesis using fill cnt uc suc by (simp add: state_ok_def)
  next
    case (evict si tg k)
    from sets_ok_put [OF sets evict(2) evict(8) small, of "(cache_sets (cache st) ! unat si ! k)\<lparr>tag := tg, last_used := use_counter st + 1\<rparr>"]
    show ?thesis using evict cnt uc suc by (simp add: state_ok_def)
  qed
qed

lemma state_ok_main_init:
  assumes "main_init malloc_null s E b tracefile = Inr st"
  shows "state_ok st"
proof -
  have "set_ok 0 (replicate n invalid_line)" for n
    by (simp add: set_ok_def invalid_line_def)
  with main_init_result(1) [OF assms] show ?thesis
    by (simp add: state_ok_def initial_globals_def INT_MAX_def)
qed

lemma state_ok_run_accesses:
  "state_ok st \<Longrightarrow> run_accesses s b st as = Inr st' \<Longrightarrow> state_ok st'"
proof (induction as arbitrary: st)
  case Nil
  then show ?case by simp
next
  case (Cons a as)
  from Cons.prems(2) obtain r st1 where a: "access_data s b st a = Inr (r, st1)"
    and rest: "run_accesses s b st1 as = Inr st'"
    by (auto split: sum.splits)
  from Cons.IH [OF state_ok_access [OF Cons.prems(1) a] rest] show ?case .
qed

section \<open>Counters\<close>

lemma access_data_counts:
  assumes "access_data s b st addr = Inr (r, st')"
  shows "(r = 0 \<and> hit_count st' = hit_count st + 1 \<and> miss_count st' = miss_count st) \<or>
         (r \<noteq> 0 \<and> hit_count st' = hit_count st \<and> miss_count st' = miss_count st + 1)"
  using assms by (cases rule: access_data_cases) simp_all

lemma replay_line_counts:
  assumes "replay_line s b st ln = Inr (rs, st')"
  shows "hit_count st' + miss_count st' = hit_count st + miss_count st + int (access_calls ln)"
    and "length rs = access_calls ln"
proof -
  have "hit_count st' + miss_count st' = hit_count st + miss_count st + int (access_calls ln)
      \<and> length rs = access_calls ln"
  proof (cases ln)
    case NoMatch
    with assms show ?thesis by (simp add: replay_line_def access_calls_def)
  next
    case (Scanned op addr sz)
    consider "op = CHR ''I''" | "op = CHR ''M''" | "op = CHR ''L'' \<or> op = CHR ''S''"
      | "op \<noteq> CHR ''I''" "op \<noteq> CHR ''M''" "op \<noteq> CHR ''L''" "op \<noteq> CHR ''S''"
      by blast
    then show ?thesis
    proof cases
      case 1
      with assms Scanned show ?thesis by (simp add: replay_line_def access_calls_def)
    next
      case 2
      with assms Scanned obtain r1 st1 r2 where
        a1: "access_data s b st addr = Inr (r1, st1)" and
        a2: "access_data s b st1 addr = Inr (r2, st')" and rs: "rs = [r1, r2]"
        by (auto simp: replay_line_def split: sum.splits)
      from access_data_counts [OF a1] access_data_counts [OF a2] rs 2 Scanned
      show ?thesis by (auto simp: access_calls_def)
    next
      case 3
      with assms Scanned obtain r where
        a1: "access_data s b st addr = Inr (r, st')" and rs: "rs = [r]"
        by (auto simp: replay_line_def split: sum.splits)
      from access_data_counts [OF a1] rs 3 Scanned
      show ?thesis by (auto simp: access_calls_def)
    next
      case 4
      with assms Scanned show ?thesis by (simp add: replay_line_def access_calls_def)
    qed
  qed
  then show "hit_count st' + miss_count st' = hit_count st + miss_count st + int (access_calls ln)"
    and "length rs = access_calls ln" by simp_all
qed

lemma replay_lines_counts:
  "replay_lines s b st lns = Inr (out, st') \<Longrightarrow>
     hit_count st' + miss_count st' = hit_count st + miss_count st + int (total_access_calls lns)
     \<and> length (concat out) = total_access_calls lns"
proof (induction lns arbitrary: st out)
  case Nil
  then show ?case by (simp add: total_access_calls_def)
next
  case (Cons ln lns)
  from Cons.prems obtain rs st1 out1 where
    l: "replay_line s b st ln = Inr (rs, st1)" and
    r: "replay_lines s b st1 lns = Inr (out1, st')" and out: "out = rs # out1"
    by (auto split: sum.splits)
  from Cons.IH [OF r] replay_line_counts [OF l] out show ?case
    by (simp add: total_access_calls_def)
qed

section \<open>Replacement\<close>

text \<open>
  C2 (LRU eviction with lowest-index tie-break). When all \<open>E\<close> lines of the target set
  are valid and none has the tag of the address, the access is a miss with eviction and
  the line it overwrites has the smallest \<open>last_used\<close> of the \<open>E\<close> lines; of the lines
  with that smallest value it is the one of lowest index.
\<close>

theorem lru_eviction_lowest_index:
  assumes acc: "access_data s b st addr = Inr (r, st')"
    and dec: "decompose s b addr = Inr (si, tg)"
    and E: "0 < cache_E (cache st)"
    and full: "\<forall>i. int i < cache_E (cache st) \<longrightarrow> valid (line_at st (unat si) i) \<noteq> 0"
    and nomatch: "\<forall>i. int i < cache_E (cache st) \<longrightarrow> tag (line_at st (unat si) i) \<noteq> tg"
  shows "r = 2 \<and>
    (\<exists>k. int k < cache_E (cache st) \<and>
       (\<forall>j. int j < cache_E (cache st) \<longrightarrow>
          last_used (line_at st (unat si) k) \<le> last_used (line_at st (unat si) j)) \<and>
       (\<forall>j<k. last_used (line_at st (unat si) k) < last_used (line_at st (unat si) j)) \<and>
       cache_sets (cache st') =
         (cache_sets (cache st))
           [unat si := (cache_sets (cache st) ! unat si)
              [k := (line_at st (unat si) k)\<lparr>tag := tg, last_used := use_counter st + 1\<rparr>]])"
  using acc
proof (cases rule: access_data_cases)
  case (hit si' tg' i)
  with dec have "si' = si" "tg' = tg" by simp_all
  with hit_scan_Some [OF hit(3)] nomatch have False
    by (auto simp: line_at_def)
  then show ?thesis ..
next
  case (fill si' tg' i)
  with dec have "si' = si" "tg' = tg" by simp_all
  with free_scan_Some [OF fill(5)] full have False
    by (auto simp: line_at_def)
  then show ?thesis ..
next
  case (evict si' tg' k)
  with dec have eq: "si' = si" "tg' = tg" by simp_all
  from lru_scan_min [OF evict(7) E] eq
  have "int k < cache_E (cache st)"
    and "\<forall>j. int j < cache_E (cache st) \<longrightarrow>
          last_used (line_at st (unat si) k) \<le> last_used (line_at st (unat si) j)"
    and "\<forall>j<k. last_used (line_at st (unat si) k) < last_used (line_at st (unat si) j)"
    by (simp_all add: line_at_def)
  moreover from evict(10) eq have "cache_sets (cache st') =
         (cache_sets (cache st))
           [unat si := (cache_sets (cache st) ! unat si)
              [k := (line_at st (unat si) k)\<lparr>tag := tg, last_used := use_counter st + 1\<rparr>]]"
    by (simp add: line_at_def)
  ultimately show ?thesis using evict(9) by blast
qed

theorem lru_eviction_lowest_index_witness:
  "access_data 0 0 full_tie 7 = Inr (2, after_tie) \<and>
   decompose 0 0 7 = Inr (0, 7) \<and>
   line_at after_tie 0 1 = (line_at full_tie 0 1)\<lparr>tag := 7, last_used := 6\<rparr> \<and>
   line_at after_tie 0 0 = line_at full_tie 0 0 \<and>
   line_at after_tie 0 2 = line_at full_tie 0 2"
proof -
  have acc: "access_data 0 0 full_tie 7 = Inr (2, after_tie)" by code_simp
  have dec: "decompose 0 0 7 = Inr (0, 7)" by code_simp
  have E: "0 < cache_E (cache full_tie)" by code_simp
  have three: "i = 0 \<or> i = 1 \<or> i = 2" if "int i < cache_E (cache full_tie)" for i
    using that by (auto simp: full_tie_def)
  have lines: "valid (line_at full_tie 0 i) \<noteq> 0 \<and> tag (line_at full_tie 0 i) \<noteq> 7"
    if "i = 0 \<or> i = 1 \<or> i = 2" for i
    using that by (auto simp: full_tie_def line_at_def)
  have full: "\<forall>i. int i < cache_E (cache full_tie) \<longrightarrow>
      valid (line_at full_tie (unat (0::u64)) i) \<noteq> 0"
    using three lines by simp
  have nomatch: "\<forall>i. int i < cache_E (cache full_tie) \<longrightarrow>
      tag (line_at full_tie (unat (0::u64)) i) \<noteq> 7"
    using three lines by simp
  have rest: "line_at after_tie 0 1 = (line_at full_tie 0 1)\<lparr>tag := 7, last_used := 6\<rparr>"
    "line_at after_tie 0 0 = line_at full_tie 0 0"
    "line_at after_tie 0 2 = line_at full_tie 0 2"
    by (simp_all add: line_at_def after_tie_def full_tie_def)
  from lru_eviction_lowest_index [OF acc dec E full nomatch] acc dec rest
  show ?thesis by blast
qed

section \<open>Modify\<close>







section \<open>Evictions\<close>

lemma access_data_eviction:
  assumes acc: "access_data s b st addr = Inr (r, st')"
    and dec: "decompose s b addr = Inr (si, tg)"
  shows "(r = 2 \<longrightarrow>
            eviction_count st' = eviction_count st + 1 \<and>
            miss_count st' = miss_count st + 1 \<and>
            (\<forall>i. int i < cache_E (cache st) \<longrightarrow>
               i < length (cache_sets (cache st) ! unat si) \<and>
               valid (line_at st (unat si) i) \<noteq> 0)) \<and>
         (r \<noteq> 2 \<longrightarrow> eviction_count st' = eviction_count st)"
  using acc
proof (cases rule: access_data_cases)
  case (hit si' tg' i)
  then show ?thesis by simp
next
  case (fill si' tg' i)
  then show ?thesis by simp
next
  case (evict si' tg' k)
  with dec have eq: "si' = si" by simp
  have "i < length (cache_sets (cache st) ! unat si) \<and> valid (line_at st (unat si) i) \<noteq> 0"
    if "int i < cache_E (cache st)" for i
    using free_scan_None [OF evict(5) _ that] eq by (simp add: line_at_def)
  with evict show ?thesis by simp
qed

section \<open>Decomposition and construction\<close>

text \<open>
  C5 (address decomposition), as the claim states it, fails: \<^verbatim>\<open>main\<close> accepts
  \<^verbatim>\<open>-s 4 -b 60\<close> and constructs the cache, and the first access then shifts a 64-bit
  value by 64, which C leaves undefined: no set index and tag are computed.
\<close>

theorem address_decomposition_counterexample:
  "main_init never_null 4 1 60 (Some ''yi.trace'') = Inr fresh_16x1 \<and>
   decompose 4 60 0x1000000000000000 = Inl ShiftUndefined \<and>
   access_data 4 60 fresh_16x1 0x1000000000000000 = Inl ShiftUndefined"
  by code_simp

text \<open>
  C5 (address decomposition), amended. For every 64-bit address and parameters
  \<open>s \<ge> 0\<close>, \<open>b \<ge> 0\<close> with \<open>b + s < 64\<close>, \<open>access_data\<close> computes
  \<open>set_index = (addr >> b) & ((1 << s) - 1)\<close>, which is 0 when \<open>s = 0\<close>, and
  \<open>tag = addr >> (b + s)\<close>; the two depend on the address, \<open>s\<close> and \<open>b\<close> only and on no
  cache state.
\<close>

theorem address_decomposition:
  assumes "0 \<le> s" and "0 \<le> b" and "b + s < 64"
  shows "decompose s b addr =
           Inr (spec_set_index (nat s) (nat b) addr, spec_tag (nat s) (nat b) addr) \<and>
         (s = 0 \<longrightarrow> spec_set_index (nat s) (nat b) addr = 0) \<and>
         access_data s b st addr =
           access_set (unat (spec_set_index (nat s) (nat b) addr))
             (spec_tag (nat s) (nat b) addr) (st\<lparr>use_counter := use_counter st + 1\<rparr>)"
proof -
  from assms have shifts: "\<not> (s > 0 \<and> s \<ge> 64)" "\<not> (b < 0 \<or> b \<ge> 64)"
    "\<not> (b + s < 0 \<or> b + s \<ge> 64)" by simp_all
  from assms have sum: "nat (b + s) = nat b + nat s" by simp
  have mask: "(if s > 0 then push_bit (nat s) 1 - 1 else 0) = (push_bit (nat s) 1 - 1 :: u64)"
    using assms(1) by (cases "s = 0") simp_all
  from shifts have dec: "decompose s b addr =
      Inr (spec_set_index (nat s) (nat b) addr, spec_tag (nat s) (nat b) addr)"
    unfolding decompose_def Let_def spec_set_index_def spec_tag_def
    by (simp only: if_False mask sum)
  moreover have "spec_set_index (nat s) (nat b) addr = 0" if "s = 0"
    using that by (simp add: spec_set_index_def)
  moreover from dec have "access_data s b st addr =
           access_set (unat (spec_set_index (nat s) (nat b) addr))
             (spec_tag (nat s) (nat b) addr) (st\<lparr>use_counter := use_counter st + 1\<rparr>)"
    by (simp add: access_data_def)
  ultimately show ?thesis by blast
qed

theorem address_decomposition_witness:
  "(0::int) \<le> 4 \<and> (0::int) \<le> 2 \<and> (2::int) + 4 < 64 \<and>
   decompose 4 2 0xABCD = Inr (3, 0x2AF) \<and>
   spec_set_index 4 2 0xABCD = 3 \<and> spec_tag 4 2 0xABCD = 0x2AF \<and>
   decompose 0 3 0xABCD = Inr (0, 0x1579) \<and>
   access_data 4 2 fresh_16x1 0xABCD = access_set 3 0x2AF (fresh_16x1\<lparr>use_counter := 1\<rparr>)"
proof -
  have h: "(0::int) \<le> 4" "(0::int) \<le> 2" "(2::int) + 4 < 64" by simp_all
  have v: "spec_set_index 4 2 0xABCD = 3" "spec_tag 4 2 0xABCD = 0x2AF" by code_simp+
  have u: "use_counter fresh_16x1 = 0" by (simp add: fresh_16x1_def)
  note a = address_decomposition [OF h, of "0xABCD" fresh_16x1]
  from a v have d: "decompose 4 2 0xABCD = Inr (3, 0x2AF)" by simp
  from a v u have acc: "access_data 4 2 fresh_16x1 0xABCD =
      access_set 3 0x2AF (fresh_16x1\<lparr>use_counter := 1\<rparr>)" by simp
  have h0: "(0::int) \<le> 0" "(0::int) \<le> 3" "(3::int) + 0 < 64" by simp_all
  have v0: "spec_tag 0 3 0xABCD = 0x1579" by code_simp
  from address_decomposition [OF h0, of "0xABCD" fresh_16x1] v0
  have d0: "decompose 0 3 0xABCD = Inr (0, 0x1579)" by simp
  from h v d d0 acc show ?thesis by blast
qed

text \<open>
  C6 (construction). Construction fails fatally when \<open>E \<le> 0\<close> and when \<open>s \<ge> 64\<close>, where
  \<open>2^s\<close> does not fit the index type. When it succeeds the cache has \<open>2^s\<close> sets of \<open>E\<close>
  lines each, all invalid, and it succeeds for \<open>0 \<le> s \<le> 60\<close>, \<open>0 < E\<close>, \<open>0 \<le> b\<close> with a
  trace file name when no allocation fails.
\<close>

theorem construction:
  "(E \<le> 0 \<longrightarrow> main_init malloc_null s E b tracefile = Inl MissingArgs) \<and>
   (64 \<le> s \<longrightarrow> init_cache malloc_null s E g = Inl STooLarge \<and>
      main_init malloc_null s E b tracefile \<in> {Inl MissingArgs, Inl STooLarge}) \<and>
   (\<forall>st. main_init malloc_null s E b tracefile = Inr st \<longrightarrow>
      cache_sets (cache st) = replicate (2 ^ nat s) (replicate (nat E) invalid_line) \<and>
      length (cache_sets (cache st)) = 2 ^ nat s \<and>
      (\<forall>lines \<in> set (cache_sets (cache st)).
         length lines = nat E \<and> (\<forall>l \<in> set lines. valid l = 0)) \<and>
      cache_S (cache st) = 2 ^ nat s \<and> cache_E (cache st) = E \<and>
      hit_count st = 0 \<and> miss_count st = 0 \<and> eviction_count st = 0 \<and> use_counter st = 0) \<and>
   (0 \<le> s \<and> s \<le> 60 \<and> 0 < E \<and> 0 \<le> b \<and> tracefile \<noteq> None \<and>
      (\<forall>k \<le> 2 ^ nat s. \<not> malloc_null k) \<longrightarrow>
      (\<exists>st. main_init malloc_null s E b tracefile = Inr st))"
proof -
  have "main_init malloc_null s E b tracefile = Inl MissingArgs" if "E \<le> 0"
    using that by (simp add: main_init_def)
  moreover have "init_cache malloc_null s E g = Inl STooLarge \<and>
      main_init malloc_null s E b tracefile \<in> {Inl MissingArgs, Inl STooLarge}" if "64 \<le> s"
    using that by (simp add: main_init_def init_cache_def)
  moreover have "cache_sets (cache st) = replicate (2 ^ nat s) (replicate (nat E) invalid_line) \<and>
      length (cache_sets (cache st)) = 2 ^ nat s \<and>
      (\<forall>lines \<in> set (cache_sets (cache st)).
         length lines = nat E \<and> (\<forall>l \<in> set lines. valid l = 0)) \<and>
      cache_S (cache st) = 2 ^ nat s \<and> cache_E (cache st) = E \<and>
      hit_count st = 0 \<and> miss_count st = 0 \<and> eviction_count st = 0 \<and> use_counter st = 0"
    if "main_init malloc_null s E b tracefile = Inr st" for st
    using main_init_result(1) [OF that]
    by (simp add: initial_globals_def invalid_line_def)
  moreover have "\<exists>st. main_init malloc_null s E b tracefile = Inr st"
    if "0 \<le> s \<and> s \<le> 60 \<and> 0 < E \<and> 0 \<le> b \<and> tracefile \<noteq> None \<and>
      (\<forall>k \<le> 2 ^ nat s. \<not> malloc_null k)"
    using that main_init_succeeds [of s E b tracefile malloc_null] by blast
  ultimately show ?thesis by blast
qed

theorem construction_witness:
  "main_init never_null 1 0 0 (Some ''yi.trace'') = Inl MissingArgs \<and>
   main_init never_null 64 1 0 (Some ''yi.trace'') = Inl STooLarge \<and>
   main_init never_null 1 1 0 (Some ''yi.trace'') = Inr fresh_2x1 \<and>
   cache_sets (cache fresh_2x1) = replicate (2 ^ nat 1) (replicate (nat 1) invalid_line)"
proof -
  have "(0::int) \<le> 0" by simp
  with construction [of 0 never_null 1 0 "Some ''yi.trace''" initial_globals]
  have a: "main_init never_null 1 0 0 (Some ''yi.trace'') = Inl MissingArgs" by blast
  have "(64::int) \<le> 64" by simp
  with construction [of 1 never_null 64 0 "Some ''yi.trace''" initial_globals]
  have "init_cache never_null 64 1 initial_globals = Inl STooLarge" by blast
  then have b: "main_init never_null 64 1 0 (Some ''yi.trace'') = Inl STooLarge"
    by (simp add: main_init_def)
  have "(0::int) \<le> 1 \<and> (1::int) \<le> 60 \<and> (0::int) < 1 \<and> (0::int) \<le> 0 \<and>
      Some ''yi.trace'' \<noteq> None \<and> (\<forall>k \<le> 2 ^ nat 1. \<not> never_null k)"
    by (simp add: never_null_def)
  with construction [of 1 never_null 1 0 "Some ''yi.trace''" initial_globals]
  obtain st where st: "main_init never_null 1 1 0 (Some ''yi.trace'') = Inr st" by blast
  have c: "main_init never_null 1 1 0 (Some ''yi.trace'') = Inr fresh_2x1" by code_simp
  with construction [of 1 never_null 1 0 "Some ''yi.trace''" initial_globals]
  have "cache_sets (cache fresh_2x1) = replicate (2 ^ nat 1) (replicate (nat 1) invalid_line)"
    by blast
  with a b c show ?thesis by blast
qed

section \<open>What an access writes\<close>

lemma nth_nth_update:
  "xs[si := (xs ! si)[k := l]] ! si' ! i =
     (if si' = si \<and> i = k \<and> si < length xs \<and> k < length (xs ! si) then l else xs ! si' ! i)"
proof (cases "si < length xs")
  case False
  then have "xs[si := (xs ! si)[k := l]] = xs" by (simp add: list_update_beyond)
  with False show ?thesis by simp
next
  case si: True
  show ?thesis
  proof (cases "si' = si")
    case False
    then show ?thesis by simp
  next
    case True
    show ?thesis
    proof (cases "k < length (xs ! si)")
      case False
      then have "(xs ! si)[k := l] = xs ! si" by (simp add: list_update_beyond)
      with False si True show ?thesis by simp
    next
      case k: True
      with si True show ?thesis by (simp add: nth_list_update)
    qed
  qed
qed

lemma line_at_put_line:
  "line_at (put_line st si k l) si' i =
     (if si' = si \<and> i = k \<and> si < length (cache_sets (cache st)) \<and>
         k < length (cache_sets (cache st) ! si)
      then l else line_at st si' i)"
  by (simp add: line_at_def nth_nth_update)

lemma line_at_simps [simp]:
  "line_at (st\<lparr>use_counter := u\<rparr>) si i = line_at st si i"
  "line_at (st\<lparr>hit_count := h\<rparr>) si i = line_at st si i"
  "line_at (st\<lparr>miss_count := m\<rparr>) si i = line_at st si i"
  "line_at (st\<lparr>eviction_count := e\<rparr>) si i = line_at st si i"
  by (simp_all add: line_at_def)

text \<open>What one call of access_data writes, and where.\<close>

lemma access_data_write:
  assumes "access_data s b st addr = Inr (r, st')"
  obtains si tg k l where "decompose s b addr = Inr (si, tg)"
    and "unat si < length (cache_sets (cache st))"
    and "k < length (cache_sets (cache st) ! unat si)"
    and "r = 0 \<or> r = 1 \<longrightarrow> int k < cache_E (cache st)"
    and "cache_sets (cache st') =
           (cache_sets (cache st))[unat si := (cache_sets (cache st) ! unat si)[k := l]]"
    and "cache_S (cache st') = cache_S (cache st)"
    and "cache_E (cache st') = cache_E (cache st)"
    and "use_counter st' = use_counter st + 1"
    and "r = 0 \<or> r = 1 \<or> r = 2"
    and "r = 0 \<longrightarrow> valid (line_at st (unat si) k) \<noteq> 0 \<and> tag (line_at st (unat si) k) = tg \<and>
           l = (line_at st (unat si) k)\<lparr>last_used := use_counter st + 1\<rparr>"
    and "r = 1 \<longrightarrow> valid (line_at st (unat si) k) = 0 \<and>
           l = (line_at st (unat si) k)\<lparr>valid := 1, tag := tg, last_used := use_counter st + 1\<rparr>"
    and "r = 2 \<longrightarrow> (0 < cache_E (cache st) \<longrightarrow> valid (line_at st (unat si) k) \<noteq> 0) \<and>
           l = (line_at st (unat si) k)\<lparr>tag := tg, last_used := use_counter st + 1\<rparr>"
  using assms
proof (cases rule: access_data_cases)
  case (hit si tg i)
  from hit_scan_Some [OF hit(3)] hit show ?thesis
    by (intro that [of si tg i "(line_at st (unat si) i)\<lparr>last_used := use_counter st + 1\<rparr>"])
       (simp_all add: line_at_def)
next
  case (fill si tg i)
  from free_scan_Some [OF fill(5)] fill show ?thesis
    by (intro that [of si tg i
          "(line_at st (unat si) i)\<lparr>valid := 1, tag := tg, last_used := use_counter st + 1\<rparr>"])
       (simp_all add: line_at_def)
next
  case (evict si tg k)
  have "valid (line_at st (unat si) k) \<noteq> 0" if "0 < cache_E (cache st)"
  proof -
    from lru_scan_min [OF evict(7) that] have "int k < cache_E (cache st)" by simp
    from free_scan_None [OF evict(5) _ this] show ?thesis by (simp add: line_at_def)
  qed
  with evict show ?thesis
    by (intro that [of si tg k
          "(line_at st (unat si) k)\<lparr>tag := tg, last_used := use_counter st + 1\<rparr>"])
       (simp_all add: line_at_def)
qed

section \<open>Validity of the lines\<close>

lemma line_at_after_write:
  assumes "cache_sets (cache st') =
           (cache_sets (cache st))[si := (cache_sets (cache st) ! si)[k := l]]"
    and "si < length (cache_sets (cache st))" and "k < length (cache_sets (cache st) ! si)"
  shows "line_at st' si' i = (if si' = si \<and> i = k then l else line_at st si' i)"
  using assms by (simp add: line_at_def nth_nth_update)

lemma access_data_valid:
  assumes "access_data s b st addr = Inr (r, st')"
  shows "valid (line_at st si i) \<noteq> 0 \<or> r = 2 \<Longrightarrow>
           valid (line_at st' si i) = valid (line_at st si i)"
  using assms
proof (cases rule: access_data_write)
  case (1 sj tg k l)
  note at = line_at_after_write [OF 1(5) 1(2) 1(3), of si i]
  assume v: "valid (line_at st si i) \<noteq> 0 \<or> r = 2"
  show ?thesis
  proof (cases "si = unat sj \<and> i = k")
    case False
    with at show ?thesis by auto
  next
    case True
    with at have l: "line_at st' si i = l" by simp
    from 1(9) consider "r = 0" | "r = 1" | "r = 2" by blast
    then show ?thesis
    proof cases
      case 1
      with \<open>r = 0 \<longrightarrow> _\<close> l True show ?thesis by simp
    next
      case 2
      with \<open>r = 1 \<longrightarrow> _\<close> v True show ?thesis by simp
    next
      case 3
      with \<open>r = 2 \<longrightarrow> _\<close> l True show ?thesis by simp
    qed
  qed
qed

text \<open>
  C8 (line validity is monotone). After construction every line of every set is
  invalid. A line that is valid before a call of \<open>access_data\<close> is valid after it, with
  the same flag; an eviction changes the valid flag of no line.
\<close>

theorem validity_monotone:
  "(\<forall>st0. main_init malloc_null s E b tracefile = Inr st0 \<longrightarrow>
      (\<forall>lines \<in> set (cache_sets (cache st0)). \<forall>l \<in> set lines. valid l = 0)) \<and>
   (\<forall>st addr r st'. access_data s b st addr = Inr (r, st') \<longrightarrow>
      (\<forall>si i. valid (line_at st si i) \<noteq> 0 \<longrightarrow>
         valid (line_at st' si i) = valid (line_at st si i) \<and> valid (line_at st' si i) \<noteq> 0) \<and>
      (r = 2 \<longrightarrow> (\<forall>si i. valid (line_at st' si i) = valid (line_at st si i))))"
proof -
  have "\<forall>lines \<in> set (cache_sets (cache st0)). \<forall>l \<in> set lines. valid l = 0"
    if "main_init malloc_null s E b tracefile = Inr st0" for st0
    using main_init_result(1) [OF that] by (simp add: invalid_line_def)
  moreover have "(\<forall>si i. valid (line_at st si i) \<noteq> 0 \<longrightarrow>
         valid (line_at st' si i) = valid (line_at st si i) \<and> valid (line_at st' si i) \<noteq> 0) \<and>
      (r = 2 \<longrightarrow> (\<forall>si i. valid (line_at st' si i) = valid (line_at st si i)))"
    if "access_data s b st addr = Inr (r, st')" for st addr r st'
    using access_data_valid [OF that] by simp
  ultimately show ?thesis by blast
qed

theorem validity_monotone_witness:
  "main_init never_null 1 1 0 (Some ''yi.trace'') = Inr fresh_2x1 \<and>
   valid (line_at fresh_2x1 0 0) = 0 \<and> valid (line_at fresh_2x1 1 0) = 0 \<and>
   access_data 1 0 final_a 4 = Inr (2, after_a) \<and>
   valid (line_at final_a 0 0) \<noteq> 0 \<and>
   valid (line_at after_a 0 0) = valid (line_at final_a 0 0) \<and>
   valid (line_at after_a 1 0) = valid (line_at final_a 1 0)"
proof -
  have init: "main_init never_null 1 1 0 (Some ''yi.trace'') = Inr fresh_2x1" by code_simp
  have sets: "[invalid_line] \<in> set (cache_sets (cache fresh_2x1))"
    by (simp add: fresh_2x1_def)
  have acc: "access_data 1 0 final_a 4 = Inr (2, after_a)" by code_simp
  have v: "valid (line_at final_a 0 0) \<noteq> 0" by (simp add: line_at_def final_a_def)
  note res = validity_monotone [of never_null 1 1 0 "Some ''yi.trace''"]
  from res init have "\<forall>lines \<in> set (cache_sets (cache fresh_2x1)). \<forall>l \<in> set lines. valid l = 0"
    by blast
  with sets have "valid invalid_line = 0" by auto
  then have inv: "valid (line_at fresh_2x1 0 0) = 0" "valid (line_at fresh_2x1 1 0) = 0"
    by (simp_all add: line_at_def fresh_2x1_def)
  from res acc have "\<forall>si i. valid (line_at after_a si i) = valid (line_at final_a si i)"
    by blast
  then have "valid (line_at after_a 0 0) = valid (line_at final_a 0 0)"
    "valid (line_at after_a 1 0) = valid (line_at final_a 1 0)" by blast+
  with init inv acc v show ?thesis by blast
qed

section \<open>Frame and time stamps\<close>

text \<open>
  C9 (frame property). A call of \<open>access_data\<close> changes at most one line, a line \<open>k\<close> of
  the target set: on a hit it writes its \<open>last_used\<close>, on a miss without eviction its
  \<open>valid\<close>, \<open>tag\<close> and \<open>last_used\<close>, on a miss with eviction its \<open>tag\<close> and \<open>last_used\<close>.
  All lines of the other sets and the other lines of the target set stay as they are,
  no array changes its length, \<open>cache.S\<close> and \<open>cache.E\<close> stay, and \<open>use_counter\<close> is
  incremented.
\<close>

theorem access_frame:
  assumes "access_data s b st addr = Inr (r, st')"
  shows "\<exists>si tg k.
    decompose s b addr = Inr (si, tg) \<and>
    unat si < length (cache_sets (cache st)) \<and>
    k < length (cache_sets (cache st) ! unat si) \<and>
    cache_sets (cache st') =
      (cache_sets (cache st))
        [unat si := (cache_sets (cache st) ! unat si)[k := line_at st' (unat si) k]] \<and>
    (\<forall>si' i. (si', i) \<noteq> (unat si, k) \<longrightarrow> line_at st' si' i = line_at st si' i) \<and>
    (r = 0 \<longrightarrow> line_at st' (unat si) k =
       (line_at st (unat si) k)\<lparr>last_used := use_counter st + 1\<rparr>) \<and>
    (r = 1 \<longrightarrow> line_at st' (unat si) k =
       (line_at st (unat si) k)\<lparr>valid := 1, tag := tg, last_used := use_counter st + 1\<rparr>) \<and>
    (r = 2 \<longrightarrow> line_at st' (unat si) k =
       (line_at st (unat si) k)\<lparr>tag := tg, last_used := use_counter st + 1\<rparr>) \<and>
    (r = 0 \<or> r = 1 \<or> r = 2) \<and>
    length (cache_sets (cache st')) = length (cache_sets (cache st)) \<and>
    (\<forall>si'. length (cache_sets (cache st') ! si') = length (cache_sets (cache st) ! si')) \<and>
    cache_S (cache st') = cache_S (cache st) \<and>
    cache_E (cache st') = cache_E (cache st) \<and>
    use_counter st' = use_counter st + 1"
  using assms
proof (cases rule: access_data_write)
  case (1 si tg k l)
  note at = line_at_after_write [OF 1(5) 1(2) 1(3)]
  from at [of "unat si" k] have l: "line_at st' (unat si) k = l" by simp
  have other: "\<forall>si' i. (si', i) \<noteq> (unat si, k) \<longrightarrow> line_at st' si' i = line_at st si' i"
    using at by auto
  have len: "length (cache_sets (cache st') ! si') = length (cache_sets (cache st) ! si')" for si'
  proof (cases "si' = unat si")
    case True
    with 1(5) 1(2) show ?thesis by simp
  next
    case False
    with 1(5) show ?thesis by simp
  qed
  from 1(5) have "length (cache_sets (cache st')) = length (cache_sets (cache st))" by simp
  with 1 l other len show ?thesis by (intro exI [of _ si] exI [of _ tg] exI [of _ k]) simp
qed

theorem access_frame_witness:
  "access_data 1 0 final_a 4 = Inr (2, after_a) \<and>
   decompose 1 0 4 = Inr (0, 2) \<and>
   line_at after_a 0 0 = (line_at final_a 0 0)\<lparr>tag := 2, last_used := use_counter final_a + 1\<rparr> \<and>
   line_at after_a 1 0 = line_at final_a 1 0 \<and>
   cache_S (cache after_a) = cache_S (cache final_a) \<and>
   cache_E (cache after_a) = cache_E (cache final_a) \<and>
   use_counter after_a = use_counter final_a + 1"
proof -
  have acc: "access_data 1 0 final_a 4 = Inr (2, after_a)" by code_simp
  have dec: "decompose 1 0 4 = Inr (0, 2)" by code_simp
  from access_frame [OF acc] dec obtain k where
    k: "k < length (cache_sets (cache final_a) ! unat (0::u64))" and
    other: "\<forall>si' i. (si', i) \<noteq> (unat (0::u64), k) \<longrightarrow> line_at after_a si' i = line_at final_a si' i" and
    line: "line_at after_a (unat (0::u64)) k =
       (line_at final_a (unat (0::u64)) k)\<lparr>tag := 2, last_used := use_counter final_a + 1\<rparr>" and
    rest: "cache_S (cache after_a) = cache_S (cache final_a)"
      "cache_E (cache after_a) = cache_E (cache final_a)"
      "use_counter after_a = use_counter final_a + 1"
    by auto
  from k have "k = 0" by (simp add: final_a_def)
  with other line have "line_at after_a 0 0 =
      (line_at final_a 0 0)\<lparr>tag := 2, last_used := use_counter final_a + 1\<rparr>"
    and "line_at after_a 1 0 = line_at final_a 1 0" by simp_all
  with acc dec rest show ?thesis by blast
qed

lemma run_accesses_calls:
  "run_accesses s b st as = Inr st' \<Longrightarrow>
     hit_count st' + miss_count st' = hit_count st + miss_count st + int (length as)"
proof (induction as arbitrary: st)
  case Nil
  then show ?case by simp
next
  case (Cons a as)
  from Cons.prems obtain r st1 where a: "access_data s b st a = Inr (r, st1)"
    and rest: "run_accesses s b st1 as = Inr st'"
    by (auto split: sum.splits)
  from Cons.IH [OF rest] access_data_counts [OF a] show ?case by auto
qed

text \<open>In a state that satisfies the invariant the victim of an eviction is the only
  line of its set with the smallest time stamp.\<close>

lemma unique_victim:
  assumes ok: "state_ok st"
    and acc: "access_data s b st addr = Inr (2, st')"
    and dec: "decompose s b addr = Inr (si, tg)"
    and E: "0 < cache_E (cache st)"
  shows "\<exists>k. int k < cache_E (cache st) \<and>
           line_at st' (unat si) k =
             (line_at st (unat si) k)\<lparr>tag := tg, last_used := use_counter st + 1\<rparr> \<and>
           (\<forall>j. int j < cache_E (cache st) \<and> j \<noteq> k \<longrightarrow>
              last_used (line_at st (unat si) k) < last_used (line_at st (unat si) j))"
  using acc
proof (cases rule: access_data_cases)
  case (hit si' tg' i)
  then show ?thesis by simp
next
  case (fill si' tg' i)
  then show ?thesis by simp
next
  case (evict si' tg' k)
  with dec have eq: "si' = si" "tg' = tg" by simp_all
  let ?lines = "cache_sets (cache st) ! unat si"
  note ev = evict [unfolded eq]
  from lru_scan_min [OF ev(7) E]
  have k: "int k < cache_E (cache st)" "k < length ?lines"
    and least: "\<forall>j. int j < cache_E (cache st) \<longrightarrow> last_used (?lines ! k) \<le> last_used (?lines ! j)"
    by simp_all
  from ok ev(2) have set: "set_ok (use_counter st) ?lines"
    by (simp add: state_ok_def)
  have strict: "last_used (?lines ! k) < last_used (?lines ! j)"
    if j: "int j < cache_E (cache st)" "j \<noteq> k" for j
  proof -
    from free_scan_None [OF ev(5) _ j(1)] have vj: "j < length ?lines" "valid (?lines ! j) \<noteq> 0"
      by simp_all
    from free_scan_None [OF ev(5) _ k(1)] have vk: "valid (?lines ! k) \<noteq> 0" by simp
    from set vj vk k(2) j(2) have "last_used (?lines ! k) \<noteq> last_used (?lines ! j)"
      unfolding set_ok_def by blast
    with least j(1) show ?thesis by (simp add: order.strict_iff_order)
  qed
  from ev(10) ev(2) k(2) have "line_at st' (unat si) k =
      (line_at st (unat si) k)\<lparr>tag := tg, last_used := use_counter st + 1\<rparr>"
    by (simp add: line_at_put_line) (simp add: line_at_def)
  with k(1) strict show ?thesis by (auto simp: line_at_def)
qed

text \<open>
  C10 (time stamps). In every state that a sequence of \<open>access_data\<close> calls reaches from
  a freshly constructed cache, \<open>use_counter\<close> is the number of calls made, and a further
  call increments it by one without wrapping around; the \<open>last_used\<close> of every valid line
  is at least 1 and at most \<open>use_counter\<close>; the \<open>last_used\<close> of the valid lines of a set
  differ from each other. So the line that an eviction overwrites is the only one with
  the smallest \<open>last_used\<close> of its set, and the choice of the lowest index among several
  is never needed.
\<close>

theorem time_stamps_distinct:
  assumes "main_init malloc_null s E b tracefile = Inr st0"
    and "run_accesses s b st0 as = Inr st"
  shows "unat (use_counter st) = length as \<and>
    (\<forall>addr r st'. access_data s b st addr = Inr (r, st') \<longrightarrow>
       use_counter st' = use_counter st + 1 \<and> use_counter st < use_counter st' \<and>
       unat (use_counter st') = Suc (length as)) \<and>
    (\<forall>si i. si < length (cache_sets (cache st)) \<and> i < length (cache_sets (cache st) ! si) \<and>
       valid (line_at st si i) \<noteq> 0 \<longrightarrow>
       1 \<le> last_used (line_at st si i) \<and> last_used (line_at st si i) \<le> use_counter st) \<and>
    (\<forall>si i j. si < length (cache_sets (cache st)) \<and>
       i < length (cache_sets (cache st) ! si) \<and> j < length (cache_sets (cache st) ! si) \<and>
       i \<noteq> j \<and> valid (line_at st si i) \<noteq> 0 \<and> valid (line_at st si j) \<noteq> 0 \<longrightarrow>
       last_used (line_at st si i) \<noteq> last_used (line_at st si j)) \<and>
    (\<forall>addr st' si tg.
       access_data s b st addr = Inr (2, st') \<and> decompose s b addr = Inr (si, tg) \<longrightarrow>
       (\<exists>k. int k < cache_E (cache st) \<and>
          line_at st' (unat si) k =
            (line_at st (unat si) k)\<lparr>tag := tg, last_used := use_counter st + 1\<rparr> \<and>
          (\<forall>j. int j < cache_E (cache st) \<and> j \<noteq> k \<longrightarrow>
             last_used (line_at st (unat si) k) < last_used (line_at st (unat si) j))))"
proof -
  note ok0 = state_ok_main_init [OF assms(1)]
  note ok = state_ok_run_accesses [OF ok0 assms(2)]
  from main_init_result(1,4) [OF assms(1)]
  have zero: "hit_count st0 = 0" "miss_count st0 = 0" and E0: "cache_E (cache st0) = E" "0 < E"
    by (simp_all add: initial_globals_def)
  from run_accesses_calls [OF assms(2)] zero
  have calls: "hit_count st + miss_count st = int (length as)" by simp
  with ok have uc: "uint (use_counter st) = int (length as)" by (simp add: state_ok_def)
  then have n: "unat (use_counter st) = length as" by (simp add: unat_eq_nat_uint)
  have step: "use_counter st' = use_counter st + 1 \<and> use_counter st < use_counter st' \<and>
       unat (use_counter st') = Suc (length as)"
    if acc: "access_data s b st addr = Inr (r, st')" for addr r st'
  proof -
    from ok have "uint (use_counter st) < 2 ^ 64 - 1"
      by (simp add: state_ok_def INT_MAX_def)
    from uint_succ [OF this] have suc: "uint (use_counter st + 1) = uint (use_counter st) + 1" .
    from acc have eq: "use_counter st' = use_counter st + 1"
      by (cases rule: access_data_write) simp
    from suc have lt: "use_counter st < use_counter st + 1" by (simp add: word_less_def)
    from suc uc have "unat (use_counter st + 1) = Suc (length as)"
      by (simp add: unat_eq_nat_uint)
    with eq lt show ?thesis by simp
  qed
  have sets: "set_ok (use_counter st) (cache_sets (cache st) ! si)"
    if "si < length (cache_sets (cache st))" for si
    using ok that by (simp add: state_ok_def)
  have stamps: "1 \<le> last_used (line_at st si i) \<and> last_used (line_at st si i) \<le> use_counter st"
    if "si < length (cache_sets (cache st))" "i < length (cache_sets (cache st) ! si)"
      "valid (line_at st si i) \<noteq> 0" for si i
    using sets [OF that(1)] that(2,3)
    by (simp add: set_ok_def line_at_def word_le_def)
  have distinct: "last_used (line_at st si i) \<noteq> last_used (line_at st si j)"
    if "si < length (cache_sets (cache st))" "i < length (cache_sets (cache st) ! si)"
      "j < length (cache_sets (cache st) ! si)" "i \<noteq> j"
      "valid (line_at st si i) \<noteq> 0" "valid (line_at st si j) \<noteq> 0" for si i j
    using sets [OF that(1)] that(2-6)
    by (simp add: set_ok_def line_at_def)
  have E: "0 < cache_E (cache st)"
  proof -
    have "run_accesses s b st1 as = Inr st2 \<Longrightarrow> cache_E (cache st2) = cache_E (cache st1)"
      for st1 st2
    proof (induction as arbitrary: st1)
      case Nil
      then show ?case by simp
    next
      case (Cons a as)
      from Cons.prems obtain r st3 where a: "access_data s b st1 a = Inr (r, st3)"
        and rest: "run_accesses s b st3 as = Inr st2"
        by (auto split: sum.splits)
      from a have "cache_E (cache st3) = cache_E (cache st1)"
        by (cases rule: access_data_write) simp
      with Cons.IH [OF rest] show ?case by simp
    qed
    from this [OF assms(2)] E0 show ?thesis by simp
  qed
  have victim: "\<exists>k. int k < cache_E (cache st) \<and>
          line_at st' (unat si) k =
            (line_at st (unat si) k)\<lparr>tag := tg, last_used := use_counter st + 1\<rparr> \<and>
          (\<forall>j. int j < cache_E (cache st) \<and> j \<noteq> k \<longrightarrow>
             last_used (line_at st (unat si) k) < last_used (line_at st (unat si) j))"
    if "access_data s b st addr = Inr (2, st')" "decompose s b addr = Inr (si, tg)"
    for addr st' si tg
    using unique_victim [OF ok that E] .
  from n step stamps distinct victim show ?thesis by blast
qed

theorem time_stamps_distinct_witness:
  "main_init never_null 0 2 0 (Some ''yi.trace'') = Inr fresh_1x2 \<and>
   run_accesses 0 0 fresh_1x2 [1, 2, 1] = Inr mid_b \<and>
   unat (use_counter mid_b) = length [1, 2, 1 :: u64] \<and>
   access_data 0 0 mid_b 3 = Inr (2, after_b) \<and>
   use_counter after_b = use_counter mid_b + 1 \<and>
   use_counter mid_b < use_counter after_b \<and>
   1 \<le> last_used (line_at mid_b 0 1) \<and>
   last_used (line_at mid_b 0 1) \<le> use_counter mid_b \<and>
   last_used (line_at mid_b 0 0) \<noteq> last_used (line_at mid_b 0 1) \<and>
   last_used (line_at mid_b 0 1) < last_used (line_at mid_b 0 0)"
proof -
  have init: "main_init never_null 0 2 0 (Some ''yi.trace'') = Inr fresh_1x2" by code_simp
  have run: "run_accesses 0 0 fresh_1x2 [1, 2, 1] = Inr mid_b" by code_simp
  have acc: "access_data 0 0 mid_b 3 = Inr (2, after_b)" by code_simp
  have dec: "decompose 0 0 3 = Inr (0, 3)" by code_simp
  have shape: "0 < length (cache_sets (cache mid_b))"
    "0 < length (cache_sets (cache mid_b) ! 0)" "1 < length (cache_sets (cache mid_b) ! 0)"
    "valid (line_at mid_b 0 0) \<noteq> 0" "valid (line_at mid_b 0 1) \<noteq> 0"
    by (simp_all add: mid_b_def line_at_def)
  note res = time_stamps_distinct [OF init run]
  from res have n: "unat (use_counter mid_b) = length [1, 2, 1 :: u64]" by blast
  from res acc have step: "use_counter after_b = use_counter mid_b + 1"
    "use_counter mid_b < use_counter after_b" by blast+
  from res shape(1,3,5) have stamp: "1 \<le> last_used (line_at mid_b 0 1)"
    "last_used (line_at mid_b 0 1) \<le> use_counter mid_b" by blast+
  have "(0::nat) \<noteq> 1" by simp
  with res shape have neq: "last_used (line_at mid_b 0 0) \<noteq> last_used (line_at mid_b 0 1)"
    by blast
  from res acc dec obtain k where k: "int k < cache_E (cache mid_b)"
    and line: "line_at after_b (unat (0::u64)) k =
            (line_at mid_b (unat (0::u64)) k)\<lparr>tag := 3, last_used := use_counter mid_b + 1\<rparr>"
    and least: "\<forall>j. int j < cache_E (cache mid_b) \<and> j \<noteq> k \<longrightarrow>
             last_used (line_at mid_b (unat (0::u64)) k) < last_used (line_at mid_b (unat (0::u64)) j)"
    by blast
  from k have "k = 0 \<or> k = 1" by (auto simp: mid_b_def)
  moreover have "k \<noteq> 0"
  proof
    assume "k = 0"
    with line show False by (simp add: line_at_def mid_b_def after_b_def)
  qed
  ultimately have k1: "k = 1" by simp
  have "int 0 < cache_E (cache mid_b)" by (simp add: mid_b_def)
  with least k1 have "last_used (line_at mid_b 0 1) < last_used (line_at mid_b 0 0)"
    by auto
  with init run n acc step stamp neq show ?thesis by blast
qed

section \<open>When an access returns\<close>

lemma hit_scan_total:
  "E \<le> int (length lines) \<Longrightarrow> \<exists>res. hit_scan lines E tg i = Inr res"
proof (induction lines E tg i rule: hit_scan.induct)
  case (1 lines E tg i)
  show ?case
  proof (cases "int i < E")
    case False
    then show ?thesis by (subst hit_scan.simps) simp
  next
    case True
    with "1.prems" have len: "i < length lines" by simp
    show ?thesis
    proof (cases "valid (lines ! i) \<noteq> 0 \<and> tag (lines ! i) = tg")
      case hit: True
      with True len show ?thesis by (subst hit_scan.simps) simp
    next
      case False
      from "1.IH" [OF True len False "1.prems"] True len False show ?thesis
        by (subst hit_scan.simps) auto
    qed
  qed
qed

lemma free_scan_total:
  "E \<le> int (length lines) \<Longrightarrow> \<exists>res. free_scan lines E i = Inr res"
proof (induction lines E i rule: free_scan.induct)
  case (1 lines E i)
  show ?case
  proof (cases "int i < E")
    case False
    then show ?thesis by (subst free_scan.simps) simp
  next
    case True
    with "1.prems" have len: "i < length lines" by simp
    show ?thesis
    proof (cases "valid (lines ! i) = 0")
      case free: True
      with True len show ?thesis by (subst free_scan.simps) simp
    next
      case False
      from "1.IH" [OF True len False "1.prems"] True len False show ?thesis
        by (subst free_scan.simps) auto
    qed
  qed
qed

lemma lru_scan_total:
  "E \<le> int (length lines) \<Longrightarrow> \<exists>k. lru_scan lines E i m l = Inr k"
proof (induction lines E i m l rule: lru_scan.induct)
  case (1 lines E i m l)
  show ?case
  proof (cases "int i < E")
    case False
    then show ?thesis by (subst lru_scan.simps) simp
  next
    case True
    with "1.prems" have len: "i < length lines" by simp
    show ?thesis
    proof (cases "last_used (lines ! i) < m")
      case lt: True
      from "1.IH"(1) [OF True len lt "1.prems"] True len lt show ?thesis
        by (subst lru_scan.simps) auto
    next
      case False
      from "1.IH"(2) [OF True len False "1.prems"] True len False show ?thesis
        by (subst lru_scan.simps) auto
    qed
  qed
qed

text \<open>The masked set index is below \<open>2^s\<close>, the number of sets.\<close>

lemma set_index_bound:
  fixes w :: u64
  assumes "0 \<le> s" "s < 64"
  shows "unat (w AND (if s > 0 then push_bit (nat s) 1 - 1 else 0)) < 2 ^ nat s"
proof -
  have m: "(if s > 0 then push_bit (nat s) 1 - 1 else 0) = (mask (nat s) :: u64)"
    using assms(1) by (cases "s = 0") (simp_all add: mask_eq_exp_minus_1)
  have "uint (w AND mask (nat s)) < 2 ^ nat s" by (rule and_mask_lt_2p)
  then have "int (unat (w AND mask (nat s))) < 2 ^ nat s"
    by (simp only: uint_nat)
  then have "unat (w AND mask (nat s)) < 2 ^ nat s"
    by (simp only: of_nat_less_numeral_power_cancel_iff)
  then show ?thesis by (simp only: m)
qed

text \<open>
  In a cache of the constructed shape a call of access_data returns, unless a shift
  count is out of range or the counter that the call increments is at INT_MAX.
\<close>

lemma access_data_returns:
  assumes wf: "wf_cache s st" and E: "0 < cache_E (cache st)"
    and s: "0 \<le> s" and b: "0 \<le> b" and bs: "b + s < 64"
    and cnt: "hit_count st < INT_MAX" "miss_count st < INT_MAX" "eviction_count st < INT_MAX"
  shows "\<exists>r st'. access_data s b st addr = Inr (r, st')"
proof -
  from s b bs have shifts: "\<not> (s > 0 \<and> s \<ge> 64)" "\<not> (b < 0 \<or> b \<ge> 64)"
    "\<not> (b + s < 0 \<or> b + s \<ge> 64)" "s < 64" by simp_all
  define si where "si = drop_bit (nat b) addr AND (if s > 0 then push_bit (nat s) 1 - 1 else 0)"
  define tg where "tg = drop_bit (nat (b + s)) addr"
  from shifts have dec: "decompose s b addr = Inr (si, tg)"
    by (simp add: decompose_def Let_def si_def tg_def)
  from set_index_bound [OF s shifts(4)] wf have si: "unat si < length (cache_sets (cache st))"
    by (simp add: si_def wf_cache_def)
  let ?lines = "cache_sets (cache st) ! unat si"
  from wf si have len: "int (length ?lines) = cache_E (cache st)"
    by (simp add: wf_cache_def)
  then have le: "cache_E (cache st) \<le> int (length ?lines)" by simp
  from hit_scan_total [OF le] obtain h where
    h: "hit_scan ?lines (cache_E (cache st)) tg 0 = Inr h" by blast
  from free_scan_total [OF le] obtain f where
    f: "free_scan ?lines (cache_E (cache st)) 0 = Inr f" by blast
  from lru_scan_total [OF le] obtain k where
    k: "lru_scan ?lines (cache_E (cache st)) 0 ULLONG_MAX 0 = Inr k" by blast
  from lru_scan_min [OF k E] have "k < length ?lines" by simp
  with dec si h f k cnt show ?thesis
    by (simp add: access_data_def access_set_def Let_def split: option.splits)
qed

lemma wf_cache_access:
  assumes "access_data s b st addr = Inr (r, st')" and "wf_cache s' st"
  shows "wf_cache s' st'"
  using assms(1)
proof (cases rule: access_data_write)
  case (1 si tg k l)
  have "int (length lines) = cache_E (cache st)"
    if "lines \<in> set ((cache_sets (cache st))[unat si := (cache_sets (cache st) ! unat si)[k := l]])"
    for lines
  proof -
    from that set_update_subset_insert [of "cache_sets (cache st)" "unat si"]
    have "lines = (cache_sets (cache st) ! unat si)[k := l] \<or> lines \<in> set (cache_sets (cache st))"
      by auto
    with assms(2) 1(2) show ?thesis by (auto simp: wf_cache_def)
  qed
  with 1 assms(2) show ?thesis by (simp add: wf_cache_def)
qed

lemma wf_cache_run_accesses:
  "run_accesses s b st as = Inr st' \<Longrightarrow> wf_cache s' st \<Longrightarrow>
     wf_cache s' st' \<and> cache_E (cache st') = cache_E (cache st)"
proof (induction as arbitrary: st)
  case Nil
  then show ?case by simp
next
  case (Cons a as)
  from Cons.prems(1) obtain r st1 where a: "access_data s b st a = Inr (r, st1)"
    and rest: "run_accesses s b st1 as = Inr st'"
    by (auto split: sum.splits)
  from a have "cache_E (cache st1) = cache_E (cache st)"
    by (cases rule: access_data_write) simp
  with Cons.IH [OF rest wf_cache_access [OF a Cons.prems(2)]] show ?case by simp
qed

lemma wf_cache_main_init:
  assumes "main_init malloc_null s E b tracefile = Inr st"
  shows "wf_cache s st" and "cache_E (cache st) = E"
  using main_init_result(1,4) [OF assms] by (simp_all add: wf_cache_def)

text \<open>
  From a state that access_data calls reach from a constructed cache with \<open>b + s < 64\<close>,
  a further call returns as long as the three counters are below INT_MAX.
\<close>

lemma reachable_access_returns:
  assumes init: "main_init malloc_null s E b tracefile = Inr st0"
    and run: "run_accesses s b st0 as = Inr st"
    and bs: "b + s < 64"
    and cnt: "hit_count st < INT_MAX" "miss_count st < INT_MAX"
  shows "\<exists>r st'. access_data s b st addr = Inr (r, st')"
proof -
  from wf_cache_run_accesses [OF run wf_cache_main_init(1) [OF init]] wf_cache_main_init(2) [OF init]
  have wf: "wf_cache s st" and E: "cache_E (cache st) = E" by simp_all
  from main_init_result [OF init] have args: "0 \<le> s" "0 < E" "0 \<le> b" by simp_all
  from state_ok_run_accesses [OF state_ok_main_init [OF init] run] cnt(2)
  have "eviction_count st < INT_MAX" by (simp add: state_ok_def)
  with access_data_returns [OF wf _ args(1,3) bs cnt] E args(2) show ?thesis by simp
qed

section \<open>The cache of a single line\<close>

lemma decompose_0_0: "decompose 0 0 addr = Inr (0, addr)"
  by (simp add: decompose_def)

lemma scans_one_line:
  "hit_scan [l] 1 tg 0 = Inr (if valid l \<noteq> 0 \<and> tag l = tg then Some 0 else None)"
  "free_scan [l] 1 0 = Inr (if valid l = 0 then Some 0 else None)"
  "lru_scan [l] 1 0 m k = Inr (if last_used l < m then 0 else k)"
  by (simp_all add: hit_scan.simps [of _ _ _ 0] hit_scan.simps [of _ _ _ "Suc 0"]
      free_scan.simps [of _ _ 0] free_scan.simps [of _ _ "Suc 0"]
      lru_scan.simps [of _ _ 0] lru_scan.simps [of _ _ "Suc 0"])

text \<open>An access to the cache of a single line.\<close>

lemma access_1x1:
  "access_data 0 0 (cache_1x1 l h m e uc) a =
     (if valid l \<noteq> 0 \<and> tag l = a then
        (if h = INT_MAX then Inl SignedOverflow
         else Inr (0, cache_1x1 (l\<lparr>last_used := uc + 1\<rparr>) (h + 1) m e (uc + 1)))
      else if m = INT_MAX then Inl SignedOverflow
      else if valid l = 0 then
        Inr (1, cache_1x1 (l\<lparr>valid := 1, tag := a, last_used := uc + 1\<rparr>) h (m + 1) e (uc + 1))
      else if e = INT_MAX then Inl SignedOverflow
      else Inr (2, cache_1x1 (l\<lparr>tag := a, last_used := uc + 1\<rparr>) h (m + 1) (e + 1) (uc + 1)))"
  by (simp add: access_data_def decompose_0_0 access_set_def cache_1x1_def scans_one_line
      put_line_def)

lemma replay_lines_append:
  "replay_lines s b st (xs @ ys) =
     (case replay_lines s b st xs of
        Inl e \<Rightarrow> Inl e
      | Inr (out1, st1) \<Rightarrow>
          (case replay_lines s b st1 ys of
             Inl e \<Rightarrow> Inl e
           | Inr (out2, st2) \<Rightarrow> Inr (out1 @ out2, st2)))"
  by (induction xs arbitrary: st) (auto split: sum.splits)

lemma run_accesses_append:
  "run_accesses s b st (xs @ ys) =
     (case run_accesses s b st xs of
        Inl e \<Rightarrow> Inl e
      | Inr st1 \<Rightarrow> run_accesses s b st1 ys)"
  by (induction xs arbitrary: st) (auto split: sum.splits)

lemma total_access_calls_replicate:
  "total_access_calls (replicate n (Scanned CHR ''L'' a sz)) = n"
  by (induction n) (simp_all add: total_access_calls_def access_calls_def)

text \<open>Loads of address 0, again and again.\<close>

lemma hits_first:
  "replay_line 0 0 fresh_1x1 (Scanned CHR ''L'' 0 sz) = Inr ([1], hits_state 0)"
  by (simp add: replay_line_def fresh_1x1_def access_1x1 hits_state_def invalid_line_def
      INT_MAX_def)

lemma hits_step:
  "replay_line 0 0 (hits_state k) (Scanned CHR ''L'' 0 sz) =
     (if int k = INT_MAX then Inl SignedOverflow else Inr ([0], hits_state (Suc k)))"
  by (simp add: replay_line_def hits_state_def access_1x1 add.commute)

lemma hits_run:
  "int (k + m) \<le> INT_MAX \<Longrightarrow>
     replay_lines 0 0 (hits_state k) (replicate m (Scanned CHR ''L'' 0 sz)) =
       Inr (replicate m [0], hits_state (k + m))"
proof (induction m arbitrary: k)
  case 0
  then show ?case by simp
next
  case (Suc m)
  from Suc.prems have "int k \<noteq> INT_MAX" "int (Suc k + m) \<le> INT_MAX" by simp_all
  with Suc.IH [of "Suc k"] show ?case by (simp add: hits_step)
qed

text \<open>Accesses to the addresses 0 and 1 in turn.\<close>

lemma thrash_first:
  "run_accesses 0 0 fresh_1x1 [0, 1] = Inr (thrash_state 1)"
  by (simp add: fresh_1x1_def access_1x1 thrash_state_def invalid_line_def INT_MAX_def)

lemma thrash_step:
  assumes "1 \<le> j" and "int (2 * j) + 2 \<le> INT_MAX"
  shows "run_accesses 0 0 (thrash_state j) [0, 1] = Inr (thrash_state (Suc j))"
  using assms by (simp add: thrash_state_def access_1x1 INT_MAX_def algebra_simps)

lemma thrash_run:
  "1 \<le> j \<Longrightarrow> int (2 * (j + m)) \<le> INT_MAX \<Longrightarrow>
     run_accesses 0 0 (thrash_state j) (concat (replicate m [0, 1])) = Inr (thrash_state (j + m))"
proof (induction m arbitrary: j)
  case 0
  then show ?case by simp
next
  case (Suc m)
  from Suc.prems have step: "int (2 * j) + 2 \<le> INT_MAX"
    and rest: "1 \<le> Suc j" "int (2 * (Suc j + m)) \<le> INT_MAX" by simp_all
  have "run_accesses 0 0 (thrash_state j) (concat (replicate (Suc m) [0, 1])) =
      run_accesses 0 0 (thrash_state j) ([0, 1] @ concat (replicate m [0, 1]))" by simp
  also have "\<dots> = run_accesses 0 0 (thrash_state (Suc j)) (concat (replicate m [0, 1]))"
    by (simp only: run_accesses_append thrash_step [OF Suc.prems(1) step]) simp
  also from Suc.IH [OF rest] have "\<dots> = Inr (thrash_state (Suc j + m))" .
  finally show ?case by simp
qed

section \<open>When a replay returns\<close>

text \<open>
  In a cache of the constructed shape with shift counts in range, the only way in which
  a call of access_data does not return is the increment of a counter at INT_MAX.
\<close>

lemma access_data_error:
  assumes wf: "wf_cache s st" and E: "0 < cache_E (cache st)"
    and s: "0 \<le> s" and b: "0 \<le> b" and bs: "b + s < 64"
    and err: "access_data s b st addr = Inl e"
  shows "e = SignedOverflow"
proof -
  from s b bs have shifts: "\<not> (s > 0 \<and> s \<ge> 64)" "\<not> (b < 0 \<or> b \<ge> 64)"
    "\<not> (b + s < 0 \<or> b + s \<ge> 64)" "s < 64" by simp_all
  define si where "si = drop_bit (nat b) addr AND (if s > 0 then push_bit (nat s) 1 - 1 else 0)"
  define tg where "tg = drop_bit (nat (b + s)) addr"
  from shifts have dec: "decompose s b addr = Inr (si, tg)"
    by (simp add: decompose_def Let_def si_def tg_def)
  from set_index_bound [OF s shifts(4)] wf have si: "unat si < length (cache_sets (cache st))"
    by (simp add: si_def wf_cache_def)
  let ?lines = "cache_sets (cache st) ! unat si"
  from wf si have "int (length ?lines) = cache_E (cache st)"
    by (simp add: wf_cache_def)
  then have le: "cache_E (cache st) \<le> int (length ?lines)" by simp
  from hit_scan_total [OF le] obtain h where
    h: "hit_scan ?lines (cache_E (cache st)) tg 0 = Inr h" by blast
  from free_scan_total [OF le] obtain f where
    f: "free_scan ?lines (cache_E (cache st)) 0 = Inr f" by blast
  from lru_scan_total [OF le] obtain k where
    k: "lru_scan ?lines (cache_E (cache st)) 0 ULLONG_MAX 0 = Inr k" by blast
  from lru_scan_min [OF k E] have "k < length ?lines" by simp
  with dec si h f k err show ?thesis
    by (simp add: access_data_def access_set_def Let_def split: option.splits if_splits)
qed

text \<open>The invariant and the shape of the cache along the replay of a trace.\<close>

lemma replay_line_inv:
  assumes ok: "state_ok st" and wf: "wf_cache s' st"
    and line: "replay_line s b st ln = Inr (rs, st')"
  shows "state_ok st' \<and> wf_cache s' st' \<and> cache_E (cache st') = cache_E (cache st)"
proof -
  have step: "state_ok st2 \<and> wf_cache s' st2 \<and> cache_E (cache st2) = cache_E (cache st1)"
    if "state_ok st1" "wf_cache s' st1" "access_data s b st1 a = Inr (r, st2)" for st1 st2 a r
  proof -
    from that(3) have "cache_E (cache st2) = cache_E (cache st1)"
      by (cases rule: access_data_write) simp
    with state_ok_access [OF that(1,3)] wf_cache_access [OF that(3,2)] show ?thesis by simp
  qed
  show ?thesis
  proof (cases ln)
    case NoMatch
    with line ok wf show ?thesis by (simp add: replay_line_def)
  next
    case (Scanned op addr sz)
    consider "op = CHR ''M''" | "op \<noteq> CHR ''M''" "op = CHR ''L'' \<or> op = CHR ''S''"
      | "op \<noteq> CHR ''M''" "op \<noteq> CHR ''L''" "op \<noteq> CHR ''S''" by blast
    then show ?thesis
    proof cases
      case 1
      with line Scanned obtain r1 st1 r2 where
        a1: "access_data s b st addr = Inr (r1, st1)" and
        a2: "access_data s b st1 addr = Inr (r2, st')"
        by (auto simp: replay_line_def split: sum.splits)
      from step [OF ok wf a1] step [of st1 addr r2 st'] a2 show ?thesis by simp
    next
      case 2
      with line Scanned obtain r where a1: "access_data s b st addr = Inr (r, st')"
        by (auto simp: replay_line_def split: sum.splits if_splits)
      from step [OF ok wf a1] show ?thesis .
    next
      case 3
      with line Scanned ok wf show ?thesis
        by (auto simp: replay_line_def split: if_splits)
    qed
  qed
qed

lemma replay_line_returns:
  assumes ok: "state_ok st" and wf: "wf_cache s st" and E: "0 < cache_E (cache st)"
    and s: "0 \<le> s" and b: "0 \<le> b" and bs: "b + s < 64"
    and room: "hit_count st + miss_count st + int (access_calls ln) \<le> INT_MAX"
  shows "\<exists>rs st'. replay_line s b st ln = Inr (rs, st')"
proof -
  have step: "\<exists>r st2. access_data s b st1 a = Inr (r, st2)"
    if "state_ok st1" "wf_cache s st1" "0 < cache_E (cache st1)"
      "hit_count st1 + miss_count st1 < INT_MAX" for st1 a
  proof -
    from that(1,4) have "hit_count st1 < INT_MAX" "miss_count st1 < INT_MAX"
      "eviction_count st1 < INT_MAX" by (simp_all add: state_ok_def)
    from access_data_returns [OF that(2,3) s b bs this] show ?thesis .
  qed
  show ?thesis
  proof (cases ln)
    case NoMatch
    then show ?thesis by (simp add: replay_line_def)
  next
    case (Scanned op addr sz)
    consider "op = CHR ''I''" | "op \<noteq> CHR ''I''" "op = CHR ''M''"
      | "op \<noteq> CHR ''I''" "op \<noteq> CHR ''M''" "op = CHR ''L'' \<or> op = CHR ''S''"
      | "op \<noteq> CHR ''I''" "op \<noteq> CHR ''M''" "op \<noteq> CHR ''L''" "op \<noteq> CHR ''S''" by blast
    then show ?thesis
    proof cases
      case 1
      with Scanned show ?thesis by (simp add: replay_line_def)
    next
      case 2
      with room Scanned have r1: "hit_count st + miss_count st < INT_MAX"
        and r2: "hit_count st + miss_count st + 1 < INT_MAX"
        by (simp_all add: access_calls_def)
      from step [OF ok wf E r1] obtain r1 st1 where
        a1: "access_data s b st addr = Inr (r1, st1)" by blast
      from a1 have E1: "cache_E (cache st1) = cache_E (cache st)"
        by (cases rule: access_data_write) simp
      from access_data_counts [OF a1] r2 have "hit_count st1 + miss_count st1 < INT_MAX"
        by auto
      moreover from E E1 have "0 < cache_E (cache st1)" by simp
      ultimately obtain r2 st2 where "access_data s b st1 addr = Inr (r2, st2)"
        using step [OF state_ok_access [OF ok a1] wf_cache_access [OF a1 wf]] by blast
      with a1 2 Scanned show ?thesis by (simp add: replay_line_def)
    next
      case 3
      with room Scanned have "hit_count st + miss_count st < INT_MAX"
        by (auto simp: access_calls_def)
      from step [OF ok wf E this] obtain r st1 where
        "access_data s b st addr = Inr (r, st1)" by blast
      with 3 Scanned show ?thesis by (auto simp: replay_line_def)
    next
      case 4
      with Scanned show ?thesis by (simp add: replay_line_def)
    qed
  qed
qed

lemma replay_line_error:
  assumes ok: "state_ok st" and wf: "wf_cache s st" and E: "0 < cache_E (cache st)"
    and s: "0 \<le> s" and b: "0 \<le> b" and bs: "b + s < 64"
    and err: "replay_line s b st ln = Inl e"
  shows "e = SignedOverflow"
proof (cases ln)
  case NoMatch
  with err show ?thesis by (simp add: replay_line_def)
next
  case (Scanned op addr sz)
  show ?thesis
  proof (cases "access_data s b st addr")
    case (Inl e1)
    from access_data_error [OF wf E s b bs Inl] have "e1 = SignedOverflow" .
    with err Scanned Inl show ?thesis
      by (auto simp: replay_line_def split: if_splits)
  next
    case (Inr p)
    obtain r1 st1 where p: "p = (r1, st1)" by (cases p)
    with Inr have a1: "access_data s b st addr = Inr (r1, st1)" by simp
    from a1 have E1: "0 < cache_E (cache st1)" using E
      by (cases rule: access_data_write) simp
    show ?thesis
    proof (cases "access_data s b st1 addr")
      case (Inl e2)
      from access_data_error [OF wf_cache_access [OF a1 wf] E1 s b bs Inl]
      have "e2 = SignedOverflow" .
      with err Scanned a1 Inl show ?thesis
        by (auto simp: replay_line_def split: if_splits)
    next
      case (Inr q)
      with err Scanned a1 show ?thesis
        by (auto simp: replay_line_def split: if_splits prod.splits)
    qed
  qed
qed

lemma replay_lines_returns:
  "state_ok st \<Longrightarrow> wf_cache s st \<Longrightarrow> 0 < cache_E (cache st) \<Longrightarrow>
   0 \<le> s \<Longrightarrow> 0 \<le> b \<Longrightarrow> b + s < 64 \<Longrightarrow>
   hit_count st + miss_count st + int (total_access_calls lns) \<le> INT_MAX \<Longrightarrow>
   \<exists>out st'. replay_lines s b st lns = Inr (out, st')"
proof (induction lns arbitrary: st)
  case Nil
  then show ?case by simp
next
  case (Cons ln lns)
  from Cons.prems(7) have room: "hit_count st + miss_count st + int (access_calls ln) \<le> INT_MAX"
    by (simp add: total_access_calls_def)
  from replay_line_returns [OF Cons.prems(1-6) room] obtain rs st1 where
    l: "replay_line s b st ln = Inr (rs, st1)" by blast
  from replay_line_inv [OF Cons.prems(1,2) l] Cons.prems(3)
  have inv: "state_ok st1" "wf_cache s st1" "0 < cache_E (cache st1)" by simp_all
  from replay_line_counts(1) [OF l] Cons.prems(7)
  have "hit_count st1 + miss_count st1 + int (total_access_calls lns) \<le> INT_MAX"
    by (simp add: total_access_calls_def)
  from Cons.IH [OF inv Cons.prems(4-6) this] l show ?case by auto
qed

lemma replay_lines_error:
  "state_ok st \<Longrightarrow> wf_cache s st \<Longrightarrow> 0 < cache_E (cache st) \<Longrightarrow>
   0 \<le> s \<Longrightarrow> 0 \<le> b \<Longrightarrow> b + s < 64 \<Longrightarrow>
   replay_lines s b st lns = Inl e \<Longrightarrow> e = SignedOverflow"
proof (induction lns arbitrary: st)
  case Nil
  then show ?case by simp
next
  case (Cons ln lns)
  show ?case
  proof (cases "replay_line s b st ln")
    case (Inl e1)
    from replay_line_error [OF Cons.prems(1-6) Inl] Cons.prems(7) Inl show ?thesis by simp
  next
    case (Inr p)
    obtain rs st1 where p: "p = (rs, st1)" by (cases p)
    with Inr have l: "replay_line s b st ln = Inr (rs, st1)" by simp
    from replay_line_inv [OF Cons.prems(1,2) l] Cons.prems(3)
    have inv: "state_ok st1" "wf_cache s st1" "0 < cache_E (cache st1)" by simp_all
    from Cons.prems(7) l have "replay_lines s b st1 lns = Inl e"
      by (auto split: sum.splits prod.splits)
    from Cons.IH [OF inv Cons.prems(4-6) this] show ?thesis .
  qed
qed

lemma run_accesses_returns:
  "state_ok st \<Longrightarrow> wf_cache s st \<Longrightarrow> 0 < cache_E (cache st) \<Longrightarrow>
   0 \<le> s \<Longrightarrow> 0 \<le> b \<Longrightarrow> b + s < 64 \<Longrightarrow>
   hit_count st + miss_count st + int (length as) \<le> INT_MAX \<Longrightarrow>
   \<exists>st'. run_accesses s b st as = Inr st'"
proof (induction as arbitrary: st)
  case Nil
  then show ?case by simp
next
  case (Cons a as)
  from Cons.prems(1,7) have "hit_count st < INT_MAX" "miss_count st < INT_MAX"
    "eviction_count st < INT_MAX" by (simp_all add: state_ok_def)
  from access_data_returns [OF Cons.prems(2-6) this] obtain r st1 where
    a: "access_data s b st a = Inr (r, st1)" by blast
  from a have "cache_E (cache st1) = cache_E (cache st)"
    by (cases rule: access_data_write) simp
  with Cons.prems(3) have E1: "0 < cache_E (cache st1)" by simp
  from access_data_counts [OF a] Cons.prems(7)
  have "hit_count st1 + miss_count st1 + int (length as) \<le> INT_MAX" by auto
  from Cons.IH [OF state_ok_access [OF Cons.prems(1) a] wf_cache_access [OF a Cons.prems(2)] E1
      Cons.prems(4-6) this] a
  show ?case by simp
qed

lemma run_accesses_error:
  "wf_cache s st \<Longrightarrow> 0 < cache_E (cache st) \<Longrightarrow>
   0 \<le> s \<Longrightarrow> 0 \<le> b \<Longrightarrow> b + s < 64 \<Longrightarrow>
   run_accesses s b st as = Inl e \<Longrightarrow> e = SignedOverflow"
proof (induction as arbitrary: st)
  case Nil
  then show ?case by simp
next
  case (Cons a as)
  show ?case
  proof (cases "access_data s b st a")
    case (Inl e1)
    from access_data_error [OF Cons.prems(1-5) Inl] Cons.prems(6) Inl show ?thesis by simp
  next
    case (Inr p)
    obtain r st1 where p: "p = (r, st1)" by (cases p)
    with Inr have a: "access_data s b st a = Inr (r, st1)" by simp
    from a have "cache_E (cache st1) = cache_E (cache st)"
      by (cases rule: access_data_write) simp
    with Cons.prems(2) have E1: "0 < cache_E (cache st1)" by simp
    from Cons.prems(6) a have "run_accesses s b st1 as = Inl e" by simp
    from Cons.IH [OF wf_cache_access [OF a Cons.prems(1)] E1 Cons.prems(3-5) this]
    show ?thesis .
  qed
qed

section \<open>Counters and evictions of a whole run\<close>

text \<open>The replay of the buffers is the replay of what sscanf converts them to.\<close>

lemma replay_bufs_lines:
  "map sscanf_line bufs = map Inr lns \<Longrightarrow>
     replay_bufs s b st bufs = replay_lines s b st lns"
proof (induction bufs arbitrary: lns st)
  case Nil
  then show ?case by simp
next
  case (Cons buf bufs)
  from Cons.prems obtain ln lns' where lns: "lns = ln # lns'"
    and buf: "sscanf_line buf = Inr ln" and rest: "map sscanf_line bufs = map Inr lns'"
    by (cases lns) auto
  from Cons.IH [OF rest] buf lns show ?case
    by (simp split: sum.splits prod.splits)
qed

text \<open>
  C1 (counter conservation), as the claim states it, fails: after one miss and
  \<open>2^31 - 1\<close> hits \<open>hit_count\<close> is \<open>INT_MAX\<close>, and the next hit increments it, which is
  undefined in C (the counter wraps around to a negative value). The trace is
  \<open>2^31 + 1\<close> loads of address 0 on the cache of \<^verbatim>\<open>-s 0 -E 1 -b 0\<close>.
\<close>

theorem counter_conservation_counterexample:
  "main_init never_null 0 1 0 (Some ''yi.trace'') = Inr fresh_1x1 \<and>
   map_sum id snd (replay_lines 0 0 fresh_1x1 (replicate 2147483648 (Scanned CHR ''L'' 0 1))) =
     Inr (hits_state 2147483647) \<and>
   hit_count (hits_state 2147483647) = INT_MAX \<and>
   total_access_calls (replicate 2147483649 (Scanned CHR ''L'' 0 1)) = 2147483649 \<and>
   replay_lines 0 0 fresh_1x1 (replicate 2147483649 (Scanned CHR ''L'' 0 1)) =
     Inl SignedOverflow"
proof -
  let ?L = "Scanned CHR ''L'' 0 1"
  have init: "main_init never_null 0 1 0 (Some ''yi.trace'') = Inr fresh_1x1" by code_simp
  have "int (0 + 2147483647) \<le> INT_MAX" by (simp add: INT_MAX_def)
  from hits_run [OF this, of 1]
  have run: "replay_lines 0 0 (hits_state 0) (replicate 2147483647 ?L) =
      Inr (replicate 2147483647 [0], hits_state 2147483647)" by simp
  have n1: "(2147483648::nat) = Suc 2147483647" and n2: "(2147483649::nat) = Suc 2147483648"
    by simp_all
  have split1: "replicate 2147483648 ?L = ?L # replicate 2147483647 ?L"
    by (simp only: n1 replicate_Suc)
  have "replicate 2147483649 ?L = replicate 2147483648 ?L @ [?L]"
    by (simp only: n2 replicate_Suc replicate_append_same)
  with split1 have split2: "replicate 2147483649 ?L = (?L # replicate 2147483647 ?L) @ [?L]"
    by (simp only:)
  have before: "replay_lines 0 0 fresh_1x1 (?L # replicate 2147483647 ?L) =
      Inr ([1] # replicate 2147483647 [0], hits_state 2147483647)"
    by (simp add: hits_first run)
  have last: "replay_lines 0 0 (hits_state 2147483647) [?L] = Inl SignedOverflow"
    by (simp add: hits_step INT_MAX_def)
  have a: "map_sum id snd (replay_lines 0 0 fresh_1x1 (replicate 2147483648 ?L)) =
      Inr (hits_state 2147483647)"
    unfolding split1 before by simp
  have b: "hit_count (hits_state 2147483647) = INT_MAX"
    by (simp add: hits_state_def cache_1x1_def INT_MAX_def)
  have c: "total_access_calls (replicate 2147483649 ?L) = 2147483649"
    by (rule total_access_calls_replicate)
  have d: "replay_lines 0 0 fresh_1x1 (replicate 2147483649 ?L) = Inl SignedOverflow"
    unfolding split2 replay_lines_append before sum.case prod.case last by simp
  from init a b c d show ?thesis by blast
qed

text \<open>
  C1 (counter conservation), amended. From a cache freshly constructed with
  \<open>b + s < 64\<close>, the replay of a trace that makes at most \<open>INT_MAX = 2^31 - 1\<close> access
  calls (two for each Modify, one for each Load or Store, none for Instruction lines,
  lines of unknown kind and lines that do not parse) completes, and whenever a replay
  completes \<open>hit_count + miss_count\<close> is the number of access calls made. A replay that
  does not complete stops at the increment of a counter that holds \<open>INT_MAX\<close>. Every
  call of \<open>access_data\<close> that returns increments exactly one of the two counters, by one.
  The replay of a trace file is the replay of what \<open>sscanf\<close> converts its buffers to.
\<close>

theorem counter_conservation:
  assumes init: "main_init malloc_null s E b tracefile = Inr st0"
    and bs: "b + s < 64"
  shows "(int (total_access_calls lns) \<le> INT_MAX \<longrightarrow>
            (\<exists>out st. replay_lines s b st0 lns = Inr (out, st))) \<and>
         (\<forall>out st. replay_lines s b st0 lns = Inr (out, st) \<longrightarrow>
            hit_count st + miss_count st = int (total_access_calls lns) \<and>
            length (concat out) = total_access_calls lns) \<and>
         (\<forall>e. replay_lines s b st0 lns = Inl e \<longrightarrow> e = SignedOverflow) \<and>
         (\<forall>contents. map sscanf_line (fgets_bufs contents) = map Inr lns \<longrightarrow>
            replay_trace s b st0 (Some contents) = replay_lines s b st0 lns) \<and>
         (\<forall>st1 addr r st2. access_data s b st1 addr = Inr (r, st2) \<longrightarrow>
            (hit_count st2 = hit_count st1 + 1 \<and> miss_count st2 = miss_count st1) \<or>
            (hit_count st2 = hit_count st1 \<and> miss_count st2 = miss_count st1 + 1))"
proof -
  note ok = state_ok_main_init [OF init]
  note wf = wf_cache_main_init [OF init]
  from main_init_result [OF init]
  have zero: "hit_count st0 = 0" "miss_count st0 = 0" and args: "0 \<le> s" "0 < E" "0 \<le> b"
    by (simp_all add: initial_globals_def)
  from wf(2) args(2) have E: "0 < cache_E (cache st0)" by simp
  have returns: "\<exists>out st. replay_lines s b st0 lns = Inr (out, st)"
    if "int (total_access_calls lns) \<le> INT_MAX"
    using replay_lines_returns [OF ok wf(1) E args(1,3) bs] that zero by simp
  have counts: "hit_count st + miss_count st = int (total_access_calls lns) \<and>
            length (concat out) = total_access_calls lns"
    if "replay_lines s b st0 lns = Inr (out, st)" for out st
    using replay_lines_counts [OF that] zero by simp
  have errors: "e = SignedOverflow" if "replay_lines s b st0 lns = Inl e" for e
    using replay_lines_error [OF ok wf(1) E args(1,3) bs that] .
  have link: "replay_trace s b st0 (Some contents) = replay_lines s b st0 lns"
    if "map sscanf_line (fgets_bufs contents) = map Inr lns" for contents
    using replay_bufs_lines [OF that] by (simp add: replay_trace_def)
  have call: "(hit_count st2 = hit_count st1 + 1 \<and> miss_count st2 = miss_count st1) \<or>
      (hit_count st2 = hit_count st1 \<and> miss_count st2 = miss_count st1 + 1)"
    if "access_data s b st1 addr = Inr (r, st2)" for st1 addr r st2
    using access_data_counts [OF that] by blast
  from returns counts errors link call show ?thesis by blast
qed

theorem counter_conservation_witness:
  "main_init never_null 1 1 0 (Some ''yi.trace'') = Inr fresh_2x1 \<and>
   (0::int) + 1 < 64 \<and>
   int (total_access_calls trace_a) \<le> INT_MAX \<and>
   map sscanf_line (fgets_bufs text_a) = map Inr trace_a \<and>
   replay_trace 1 0 fresh_2x1 (Some text_a) = Inr ([ [1], [], [], [2], [1, 0]], final_a) \<and>
   replay_lines 1 0 fresh_2x1 trace_a = Inr ([ [1], [], [], [2], [1, 0]], final_a) \<and>
   hit_count final_a + miss_count final_a = int (total_access_calls trace_a) \<and>
   total_access_calls trace_a = 4"
proof -
  have init: "main_init never_null 1 1 0 (Some ''yi.trace'') = Inr fresh_2x1"
    by code_simp
  have bs: "(0::int) + 1 < 64" by simp
  have bound: "int (total_access_calls trace_a) \<le> INT_MAX" by code_simp
  have scan: "map sscanf_line (fgets_bufs text_a) = map Inr trace_a" by code_simp
  have run: "replay_lines 1 0 fresh_2x1 trace_a = Inr ([ [1], [], [], [2], [1, 0]], final_a)"
    by code_simp
  have calls: "total_access_calls trace_a = 4"
    by code_simp
  note res = counter_conservation [OF init bs, of trace_a]
  from res bound obtain out st where "replay_lines 1 0 fresh_2x1 trace_a = Inr (out, st)"
    by blast
  from res run have sum: "hit_count final_a + miss_count final_a = int (total_access_calls trace_a)"
    by blast
  from res scan have "replay_trace 1 0 fresh_2x1 (Some text_a) = replay_lines 1 0 fresh_2x1 trace_a"
    by blast
  with run have whole: "replay_trace 1 0 fresh_2x1 (Some text_a) =
      Inr ([ [1], [], [], [2], [1, 0]], final_a)" by simp
  from init bs bound scan whole run sum calls show ?thesis by blast
qed

text \<open>
  C4 (eviction is a subcase of miss), as the claim states it, fails: accesses to the
  addresses 0 and 1 in turn on the cache of \<^verbatim>\<open>-s 0 -E 1 -b 0\<close> are all misses. After
  \<open>2^31 - 1\<close> of them \<open>miss_count\<close> is \<open>INT_MAX\<close> and \<open>eviction_count\<close> is \<open>INT_MAX - 1\<close>,
  and the next one increments \<open>miss_count\<close>, which is undefined in C (the counter wraps
  around to a negative value, below \<open>eviction_count\<close>).
\<close>

theorem eviction_subcase_of_miss_counterexample:
  "main_init never_null 0 1 0 (Some ''yi.trace'') = Inr fresh_1x1 \<and>
   run_accesses 0 0 fresh_1x1 (concat (replicate 1073741823 [0, 1]) @ [0]) =
     Inr (cache_1x1 \<lparr>valid = 1, tag = 0, last_used = 2147483647\<rparr>
            0 2147483647 2147483646 2147483647) \<and>
   run_accesses 0 0 fresh_1x1 (concat (replicate 1073741824 [0, 1])) = Inl SignedOverflow"
proof -
  have init: "main_init never_null 0 1 0 (Some ''yi.trace'') = Inr fresh_1x1" by code_simp
  have "(1::nat) \<le> 1" "int (2 * (1 + 1073741822)) \<le> INT_MAX" by (simp_all add: INT_MAX_def)
  from thrash_run [OF this]
  have run: "run_accesses 0 0 (thrash_state 1) (concat (replicate 1073741822 [0, 1])) =
      Inr (thrash_state 1073741823)" by simp
  have n1: "(1073741823::nat) = Suc 1073741822" and n2: "(1073741824::nat) = Suc 1073741823"
    by simp_all
  have split1: "concat (replicate 1073741823 [0, 1 :: u64]) =
      [0, 1] @ concat (replicate 1073741822 [0, 1])"
    by (simp only: n1 replicate_Suc concat.simps)
  have "replicate 1073741824 [0, 1 :: u64] = replicate 1073741823 [0, 1] @ [ [0, 1]]"
    by (simp only: n2 replicate_Suc replicate_append_same)
  then have split2: "concat (replicate 1073741824 [0, 1 :: u64]) =
      concat (replicate 1073741823 [0, 1]) @ [0] @ [1]"
    by (simp only: concat_append concat.simps append.simps append_Nil2)
  have before: "run_accesses 0 0 fresh_1x1 (concat (replicate 1073741823 [0, 1])) =
      Inr (thrash_state 1073741823)"
    unfolding split1 run_accesses_append thrash_first sum.case by (rule run)
  have one: "run_accesses 0 0 (thrash_state 1073741823) [0] =
      Inr (cache_1x1 \<lparr>valid = 1, tag = 0, last_used = 2147483647\<rparr>
            0 2147483647 2147483646 2147483647)"
    by (simp add: thrash_state_def access_1x1 INT_MAX_def)
  have two: "run_accesses 0 0 (cache_1x1 \<lparr>valid = 1, tag = 0, last_used = 2147483647\<rparr>
            0 2147483647 2147483646 2147483647) [1] = Inl SignedOverflow"
    by (simp add: access_1x1 INT_MAX_def)
  have a: "run_accesses 0 0 fresh_1x1 (concat (replicate 1073741823 [0, 1]) @ [0]) =
     Inr (cache_1x1 \<lparr>valid = 1, tag = 0, last_used = 2147483647\<rparr>
            0 2147483647 2147483646 2147483647)"
    unfolding run_accesses_append before sum.case by (rule one)
  have b: "run_accesses 0 0 fresh_1x1 (concat (replicate 1073741824 [0, 1])) = Inl SignedOverflow"
    unfolding split2 run_accesses_append before one sum.case by (rule two)
  from init a b show ?thesis by blast
qed

text \<open>
  C4 (eviction is a subcase of miss), amended. From a cache freshly constructed with
  \<open>b + s < 64\<close>, a sequence of at most \<open>INT_MAX = 2^31 - 1\<close> calls of \<open>access_data\<close>
  returns, and in every state that a sequence of calls reaches
  \<open>eviction_count \<le> miss_count\<close>; a sequence that does not return stops at the increment
  of a counter that holds \<open>INT_MAX\<close>. A call returns 2 (miss with eviction), which is when
  it increments \<open>eviction_count\<close>, only when all \<open>E\<close> lines of the target set were valid
  before the call; such a call increments \<open>miss_count\<close> too.
\<close>

theorem eviction_subcase_of_miss:
  assumes init: "main_init malloc_null s E b tracefile = Inr st0"
    and bs: "b + s < 64"
  shows "(int (length as) \<le> INT_MAX \<longrightarrow> (\<exists>st. run_accesses s b st0 as = Inr st)) \<and>
    (\<forall>st. run_accesses s b st0 as = Inr st \<longrightarrow> eviction_count st \<le> miss_count st) \<and>
    (\<forall>e. run_accesses s b st0 as = Inl e \<longrightarrow> e = SignedOverflow) \<and>
    (\<forall>st1 addr r st2 si tg.
       access_data s b st1 addr = Inr (r, st2) \<and> decompose s b addr = Inr (si, tg) \<longrightarrow>
       (r = 2 \<longrightarrow>
          eviction_count st2 = eviction_count st1 + 1 \<and>
          miss_count st2 = miss_count st1 + 1 \<and>
          (\<forall>i. int i < cache_E (cache st1) \<longrightarrow> valid (line_at st1 (unat si) i) \<noteq> 0)) \<and>
       (r \<noteq> 2 \<longrightarrow> eviction_count st2 = eviction_count st1))"
proof -
  note ok = state_ok_main_init [OF init]
  note wf = wf_cache_main_init [OF init]
  from main_init_result [OF init]
  have zero: "hit_count st0 = 0" "miss_count st0 = 0" and args: "0 \<le> s" "0 < E" "0 \<le> b"
    by (simp_all add: initial_globals_def)
  from wf(2) args(2) have E: "0 < cache_E (cache st0)" by simp
  have returns: "\<exists>st. run_accesses s b st0 as = Inr st" if "int (length as) \<le> INT_MAX"
    using run_accesses_returns [OF ok wf(1) E args(1,3) bs] that zero by simp
  have le: "eviction_count st \<le> miss_count st" if "run_accesses s b st0 as = Inr st" for st
    using state_ok_run_accesses [OF ok that] by (simp add: state_ok_def)
  have errors: "e = SignedOverflow" if "run_accesses s b st0 as = Inl e" for e
    using run_accesses_error [OF wf(1) E args(1,3) bs that] .
  have call: "(r = 2 \<longrightarrow>
          eviction_count st2 = eviction_count st1 + 1 \<and>
          miss_count st2 = miss_count st1 + 1 \<and>
          (\<forall>i. int i < cache_E (cache st1) \<longrightarrow> valid (line_at st1 (unat si) i) \<noteq> 0)) \<and>
       (r \<noteq> 2 \<longrightarrow> eviction_count st2 = eviction_count st1)"
    if "access_data s b st1 addr = Inr (r, st2)" "decompose s b addr = Inr (si, tg)"
    for st1 addr r st2 si tg
    using access_data_eviction [OF that] by blast
  from returns le errors call show ?thesis by blast
qed

theorem eviction_subcase_of_miss_witness:
  "main_init never_null 1 1 0 (Some ''yi.trace'') = Inr fresh_2x1 \<and>
   (0::int) + 1 < 64 \<and>
   int (length [0, 2, 7, 7 :: u64]) \<le> INT_MAX \<and>
   run_accesses 1 0 fresh_2x1 [0, 2, 7, 7] = Inr final_a \<and>
   eviction_count final_a \<le> miss_count final_a \<and>
   access_data 1 0 final_a 4 = Inr (2, after_a) \<and>
   decompose 1 0 4 = Inr (0, 2) \<and>
   eviction_count after_a = eviction_count final_a + 1 \<and>
   valid (line_at final_a (unat (0::u64)) 0) \<noteq> 0"
proof -
  have init: "main_init never_null 1 1 0 (Some ''yi.trace'') = Inr fresh_2x1" by code_simp
  have bs: "(0::int) + 1 < 64" by simp
  have len: "int (length [0, 2, 7, 7 :: u64]) \<le> INT_MAX" by (simp add: INT_MAX_def)
  have run: "run_accesses 1 0 fresh_2x1 [0, 2, 7, 7] = Inr final_a" by code_simp
  have acc: "access_data 1 0 final_a 4 = Inr (2, after_a)" by code_simp
  have dec: "decompose 1 0 4 = Inr (0, 2)" by code_simp
  have E: "int 0 < cache_E (cache final_a)" by code_simp
  note res = eviction_subcase_of_miss [OF init bs, of "[0, 2, 7, 7]"]
  from res len obtain st where "run_accesses 1 0 fresh_2x1 [0, 2, 7, 7] = Inr st" by blast
  from res run have le: "eviction_count final_a \<le> miss_count final_a" by blast
  from res acc dec have "eviction_count after_a = eviction_count final_a + 1 \<and>
     (\<forall>i. int i < cache_E (cache final_a) \<longrightarrow> valid (line_at final_a (unat (0::u64)) i) \<noteq> 0)"
    by blast
  with E have "eviction_count after_a = eviction_count final_a + 1"
    "valid (line_at final_a (unat (0::u64)) 0) \<noteq> 0" by blast+
  with init bs len run acc dec le show ?thesis by blast
qed

section \<open>Trace lines\<close>

text \<open>A line that fits the buffer is read whole, with its newline.\<close>

lemma fgets_line:
  "CHR 0x0A \<notin> set line \<Longrightarrow> length line < n \<Longrightarrow>
     fgets n (line @ CHR 0x0A # rest) = (line @ [CHR 0x0A], rest)"
proof (induction line arbitrary: n)
  case Nil
  then obtain m where "n = Suc m" by (cases n) simp_all
  then show ?case by simp
next
  case (Cons c line)
  from Cons.prems(2) obtain m where n: "n = Suc m" and m: "length line < m"
    by (cases n) simp_all
  from Cons.prems(1) have c: "c \<noteq> CHR 0x0A" and line: "CHR 0x0A \<notin> set line" by auto
  from Cons.IH [OF line m] n c show ?case by simp
qed

lemma fgets_bufs_line:
  assumes "CHR 0x0A \<notin> set line" and "length line < 255"
  shows "fgets_bufs (line @ CHR 0x0A # rest) = (line @ [CHR 0x0A]) # fgets_bufs rest"
  using fgets_line [OF assms, of rest]
  by (subst fgets_bufs.simps) simp

text \<open>
  C7 (permissive trace handling), as the claim states it, fails: \<open>fgets\<close> reads a line
  of more than 254 characters in pieces, and \<open>sscanf\<close> is called on each piece. The two
  lines are one of kind \<open>I\<close> and one that does not parse; the replay of each makes an
  access for \<^verbatim>\<open>L 10,1\<close>, the characters from position 255 on, and counts a miss.
\<close>

theorem permissive_trace_handling_counterexample:
  "sscanf_line long_line_I = Inr (Scanned CHR ''I'' 0 1) \<and>
   count_list long_line_I (CHR 0x0A) = 1 \<and> last long_line_I = CHR 0x0A \<and>
   replay_trace 1 0 fresh_2x1 (Some long_line_I) = Inr ([ [], [1]], after_long) \<and>
   sscanf_line long_line_bad = Inr NoMatch \<and>
   count_list long_line_bad (CHR 0x0A) = 1 \<and> last long_line_bad = CHR 0x0A \<and>
   replay_trace 1 0 fresh_2x1 (Some long_line_bad) = Inr ([ [], [1]], after_long) \<and>
   miss_count after_long = miss_count fresh_2x1 + 1"
  by code_simp

text \<open>
  C7 (permissive trace handling), amended. For every buffer that \<open>fgets\<close> gives (a whole
  line when the line has at most 254 characters before its newline) on which \<open>sscanf\<close>
  does not return 3, and for every buffer whose kind is \<open>I\<close> or any other character than
  \<open>M\<close>, \<open>L\<close> and \<open>S\<close>, the replayer calls \<open>access_data\<close> not at all: the three counters,
  the access counter and all lines stay as they are, and the replay goes on with the next
  buffer.
\<close>

theorem permissive_trace_handling:
  assumes scan: "sscanf_line buf = Inr ln"
    and kind: "ln = NoMatch \<or>
      (\<exists>op addr sz. ln = Scanned op addr sz \<and>
         op \<noteq> CHR ''M'' \<and> op \<noteq> CHR ''L'' \<and> op \<noteq> CHR ''S'')"
  shows "replay_line s b st ln = Inr ([], st) \<and>
         replay_bufs s b st (buf # bufs) =
           (case replay_bufs s b st bufs of
              Inl e \<Rightarrow> Inl e
            | Inr (out, st') \<Rightarrow> Inr ([] # out, st')) \<and>
         (\<forall>line rest. buf = line @ [CHR 0x0A] \<and> CHR 0x0A \<notin> set line \<and> length line < 255 \<longrightarrow>
            replay_trace s b st (Some (line @ CHR 0x0A # rest)) =
              (case replay_trace s b st (Some rest) of
                 Inl e \<Rightarrow> Inl e
               | Inr (out, st') \<Rightarrow> Inr ([] # out, st')))"
proof -
  from kind have line: "replay_line s b st ln = Inr ([], st)"
    by (auto simp: replay_line_def)
  with scan have bufs: "replay_bufs s b st (buf # bufs) =
           (case replay_bufs s b st bufs of
              Inl e \<Rightarrow> Inl e
            | Inr (out, st') \<Rightarrow> Inr ([] # out, st'))" for bufs
    by simp
  have "replay_trace s b st (Some (line @ CHR 0x0A # rest)) =
              (case replay_trace s b st (Some rest) of
                 Inl e \<Rightarrow> Inl e
               | Inr (out, st') \<Rightarrow> Inr ([] # out, st'))"
    if "buf = line @ [CHR 0x0A]" "CHR 0x0A \<notin> set line" "length line < 255" for line rest
    using fgets_bufs_line [OF that(2,3), of rest] bufs [of "fgets_bufs rest"] that(1)
    by (simp add: replay_trace_def)
  with line bufs show ?thesis by blast
qed

theorem permissive_trace_handling_witness:
  "sscanf_line (''I 4,1'' @ [CHR 0x0A]) = Inr (Scanned CHR ''I'' 4 1) \<and>
   sscanf_line (''X 4,1'' @ [CHR 0x0A]) = Inr (Scanned CHR ''X'' 4 1) \<and>
   sscanf_line (''L 4;1'' @ [CHR 0x0A]) = Inr NoMatch \<and>
   replay_line 1 0 final_a (Scanned CHR ''I'' 4 1) = Inr ([], final_a) \<and>
   replay_line 1 0 final_a (Scanned CHR ''X'' 4 1) = Inr ([], final_a) \<and>
   replay_line 1 0 final_a NoMatch = Inr ([], final_a) \<and>
   replay_trace 1 0 final_a (Some (''L 4,1'' @ [CHR 0x0A])) = Inr ([ [2]], after_a) \<and>
   replay_trace 1 0 final_a (Some (''I 4,1'' @ CHR 0x0A # ''L 4,1'' @ [CHR 0x0A])) =
     Inr ([ [], [2]], after_a) \<and>
   replay_trace 1 0 final_a (Some (''X 4,1'' @ CHR 0x0A # ''L 4,1'' @ [CHR 0x0A])) =
     Inr ([ [], [2]], after_a) \<and>
   replay_trace 1 0 final_a (Some (''L 4;1'' @ CHR 0x0A # ''L 4,1'' @ [CHR 0x0A])) =
     Inr ([ [], [2]], after_a)"
proof -
  have si: "sscanf_line (''I 4,1'' @ [CHR 0x0A]) = Inr (Scanned CHR ''I'' 4 1)" by code_simp
  have sx: "sscanf_line (''X 4,1'' @ [CHR 0x0A]) = Inr (Scanned CHR ''X'' 4 1)" by code_simp
  have sn: "sscanf_line (''L 4;1'' @ [CHR 0x0A]) = Inr NoMatch" by code_simp
  have ki: "Scanned CHR ''I'' 4 1 = NoMatch \<or>
      (\<exists>op addr sz. Scanned CHR ''I'' 4 1 = Scanned op addr sz \<and>
         op \<noteq> CHR ''M'' \<and> op \<noteq> CHR ''L'' \<and> op \<noteq> CHR ''S'')" by simp
  have kx: "Scanned CHR ''X'' 4 1 = NoMatch \<or>
      (\<exists>op addr sz. Scanned CHR ''X'' 4 1 = Scanned op addr sz \<and>
         op \<noteq> CHR ''M'' \<and> op \<noteq> CHR ''L'' \<and> op \<noteq> CHR ''S'')" by simp
  have kn: "NoMatch = NoMatch \<or>
      (\<exists>op addr sz. NoMatch = Scanned op addr sz \<and>
         op \<noteq> CHR ''M'' \<and> op \<noteq> CHR ''L'' \<and> op \<noteq> CHR ''S'')" by simp
  have after: "replay_trace 1 0 final_a (Some (''L 4,1'' @ [CHR 0x0A])) = Inr ([ [2]], after_a)"
    by code_simp
  have short: "CHR 0x0A \<notin> set ''I 4,1''" "length ''I 4,1'' < 255"
    "CHR 0x0A \<notin> set ''X 4,1''" "length ''X 4,1'' < 255"
    "CHR 0x0A \<notin> set ''L 4;1''" "length ''L 4;1'' < 255" by simp_all
  note ri = permissive_trace_handling [OF si ki, of 1 0 final_a "[]"]
  note rx = permissive_trace_handling [OF sx kx, of 1 0 final_a "[]"]
  note rn = permissive_trace_handling [OF sn kn, of 1 0 final_a "[]"]
  from ri have li: "replay_line 1 0 final_a (Scanned CHR ''I'' 4 1) = Inr ([], final_a)" by blast
  from rx have lx: "replay_line 1 0 final_a (Scanned CHR ''X'' 4 1) = Inr ([], final_a)" by blast
  from rn have ln: "replay_line 1 0 final_a NoMatch = Inr ([], final_a)" by blast
  from ri short have "replay_trace 1 0 final_a (Some (''I 4,1'' @ CHR 0x0A # ''L 4,1'' @ [CHR 0x0A])) =
      (case replay_trace 1 0 final_a (Some (''L 4,1'' @ [CHR 0x0A])) of
         Inl e \<Rightarrow> Inl e
       | Inr (out, st') \<Rightarrow> Inr ([] # out, st'))" by blast
  with after have ti: "replay_trace 1 0 final_a (Some (''I 4,1'' @ CHR 0x0A # ''L 4,1'' @ [CHR 0x0A])) =
      Inr ([ [], [2]], after_a)" by simp
  from rx short have "replay_trace 1 0 final_a (Some (''X 4,1'' @ CHR 0x0A # ''L 4,1'' @ [CHR 0x0A])) =
      (case replay_trace 1 0 final_a (Some (''L 4,1'' @ [CHR 0x0A])) of
         Inl e \<Rightarrow> Inl e
       | Inr (out, st') \<Rightarrow> Inr ([] # out, st'))" by blast
  with after have tx: "replay_trace 1 0 final_a (Some (''X 4,1'' @ CHR 0x0A # ''L 4,1'' @ [CHR 0x0A])) =
      Inr ([ [], [2]], after_a)" by simp
  from rn short have "replay_trace 1 0 final_a (Some (''L 4;1'' @ CHR 0x0A # ''L 4,1'' @ [CHR 0x0A])) =
      (case replay_trace 1 0 final_a (Some (''L 4,1'' @ [CHR 0x0A])) of
         Inl e \<Rightarrow> Inl e
       | Inr (out, st') \<Rightarrow> Inr ([] # out, st'))" by blast
  with after have tn: "replay_trace 1 0 final_a (Some (''L 4;1'' @ CHR 0x0A # ''L 4,1'' @ [CHR 0x0A])) =
      Inr ([ [], [2]], after_a)" by simp
  from si sx sn li lx ln after ti tx tn show ?thesis by blast
qed

end
